theory Spec2Isabelle
  imports Main "HOL-Library.Word"
begin

section \<open>Levels\<close>

text \<open>
  \<^verbatim>\<open>type Level int32\<close> with the constants \<^verbatim>\<open>None = 0\<close>, \<^verbatim>\<open>Error = 1\<close>,
  \<^verbatim>\<open>Info = 5\<close>, \<^verbatim>\<open>Debug = 10\<close>. Levels are compared as signed 32-bit integers
  (\<open><s\<close>). The methods of \<^verbatim>\<open>*Logger\<close> that share a name with a level are
  written \<open>Logger_Debug\<close>, \<open>Logger_Info\<close>, \<open>Logger_Error\<close> below.
\<close>

type_synonym int32 = "32 word"
type_synonym Level = int32

definition None_lvl :: Level where
  "None_lvl = 0"

definition Error :: Level where
  "Error = 1"

definition Info :: Level where
  "Info = 5"

definition Debug :: Level where
  "Debug = 10"

definition levelToString :: "Level \<rightharpoonup> string" where
  "levelToString =
     [None_lvl \<mapsto> ''none'', Error \<mapsto> ''error'', Info \<mapsto> ''info'', Debug \<mapsto> ''debug'']"

section \<open>Values, slices and the store\<close>

text \<open>
  A value of Go's \<^verbatim>\<open>error\<close> interface is \<open>error option\<close> (\<open>None\<close> is the nil
  error); a value of \<^verbatim>\<open>interface{}\<close> is an \<open>iface\<close>. Storing a nil error in an
  \<^verbatim>\<open>interface{}\<close> gives the nil interface value.
\<close>

datatype error = ErrorString string

datatype iface = VNil | VString string | VInt int | VBool bool | VError error

fun iface_of_error :: "error option \<Rightarrow> iface" where
  "iface_of_error None = VNil"
| "iface_of_error (Some e) = VError e"

text \<open>
  The run-time panics the methods can raise: an atomic access through a nil
  \<^verbatim>\<open>*int32\<close>, and an index past the end of a slice.
\<close>

datatype panic = NilPointerDereference | IndexOutOfRange

datatype 'a result = Return 'a | Panic panic

text \<open>
  A \<^verbatim>\<open>[]interface{}\<close> is a slice header: its backing array (\<open>None\<close> for the nil
  slice), its length and its capacity. Backing arrays live in the store, so that two
  slices over one array see each other's writes.
\<close>

record slice =
  slice_arr :: "nat option"
  slice_len :: nat
  slice_cap :: nat

definition nil_slice :: slice where
  "nil_slice = \<lparr>slice_arr = None, slice_len = 0, slice_cap = 0\<rparr>"

text \<open>
  The \<^verbatim>\<open>Logger\<close> struct. \<open>ctx\<close> and \<open>logger\<close> are interface values of the
  collaborating packages, kept opaque; \<open>metric\<close> is \<open>None\<close> when the interface is
  nil; \<open>lvl\<close> is the \<^verbatim>\<open>*int32\<close>, \<open>None\<close> when it is nil.
\<close>

record ('c, 'm, 's) Logger =
  ctx :: 'c
  args :: slice
  metric :: "'m option"
  lvl :: "nat option"
  logger :: 's

text \<open>
  The store: the allocated \<^verbatim>\<open>Logger\<close> structs, the \<^verbatim>\<open>int32\<close> cells and the
  backing arrays, each with its allocation counter (an address below the counter is
  allocated), and the two traces of calls into collaborators: every
  \<^verbatim>\<open>Log(args...)\<close> on a sink and every \<^verbatim>\<open>RecordContext(ctx, value)\<close> on a
  metric, oldest first. The recorded value is the \<^verbatim>\<open>float64\<close> constant 1, written
  as an integer.
\<close>

record ('c, 'm, 's) world =
  objs :: "nat \<Rightarrow> ('c, 'm, 's) Logger"
  next_obj :: nat
  cells :: "nat \<Rightarrow> int32"
  next_cell :: nat
  arrays :: "nat \<Rightarrow> iface list"
  next_array :: nat
  log_calls :: "('s \<times> iface list) list"
  metric_calls :: "('m \<times> 'c \<times> int) list"

text \<open>
  What the code takes from outside the package: \<^verbatim>\<open>context.Background()\<close>,
  \<^verbatim>\<open>telemetry.KeyValuesFromContext\<close>, the error a sink's \<^verbatim>\<open>Log\<close> returns, and
  the capacity the run time picks when \<^verbatim>\<open>append\<close> has to reallocate.
\<close>

record ('c, 's) collaborators =
  Background :: 'c
  KeyValuesFromContext :: "'c \<Rightarrow> iface list"
  Log :: "'s \<Rightarrow> iface list \<Rightarrow> error option"
  growslice :: "nat \<Rightarrow> nat \<Rightarrow> nat"

subsection \<open>Slice primitives\<close>

text \<open>The elements visible through a slice.\<close>

definition elems :: "('c, 'm, 's) world \<Rightarrow> slice \<Rightarrow> iface list" where
  "elems w s =
     (case slice_arr s of
        None \<Rightarrow> []
      | Some a \<Rightarrow> take (slice_len s) (arrays w a))"

text \<open>\<^verbatim>\<open>make([]interface{}, n, c)\<close>: a fresh array of \<open>c\<close> nil values.\<close>

definition make_slice ::
  "nat \<Rightarrow> nat \<Rightarrow> ('c, 'm, 's) world \<Rightarrow> slice \<times> ('c, 'm, 's) world" where
  "make_slice n c w =
     (\<lparr>slice_arr = Some (next_array w), slice_len = n, slice_cap = c\<rparr>,
      w\<lparr>arrays := (arrays w)(next_array w := replicate c VNil),
        next_array := Suc (next_array w)\<rparr>)"

text \<open>\<^verbatim>\<open>copy(dst, src)\<close>: the first \<open>min (len dst) (len src)\<close> elements.\<close>

definition copy_slice ::
  "slice \<Rightarrow> slice \<Rightarrow> ('c, 'm, 's) world \<Rightarrow> ('c, 'm, 's) world" where
  "copy_slice dst src w =
     (let n = min (slice_len dst) (slice_len src) in
      case slice_arr dst of
        None \<Rightarrow> w
      | Some d \<Rightarrow>
          w\<lparr>arrays := (arrays w)(d := take n (elems w src) @ drop n (arrays w d))\<rparr>)"

text \<open>
  \<^verbatim>\<open>append(s, xs...)\<close>: in place when the capacity suffices, into a fresh array
  otherwise.
\<close>

definition append_slice ::
  "('c, 's) collaborators \<Rightarrow> slice \<Rightarrow> iface list \<Rightarrow> ('c, 'm, 's) world \<Rightarrow>
     slice \<times> ('c, 'm, 's) world" where
  "append_slice env s xs w =
     (let n = slice_len s + length xs in
      if n \<le> slice_cap s then
        (case slice_arr s of
           None \<Rightarrow> (s, w)
         | Some a \<Rightarrow>
             (s\<lparr>slice_len := n\<rparr>,
              w\<lparr>arrays := (arrays w)
                   (a := take (slice_len s) (arrays w a) @ xs @ drop n (arrays w a))\<rparr>))
      else
        (let c = max n (growslice env (slice_cap s) n) in
         (\<lparr>slice_arr = Some (next_array w), slice_len = n, slice_cap = c\<rparr>,
          w\<lparr>arrays := (arrays w)
               (next_array w := elems w s @ xs @ replicate (c - n) VNil),
            next_array := Suc (next_array w)\<rparr>)))"

subsection \<open>Allocation, atomics and collaborators\<close>

text \<open>\<^verbatim>\<open>&Logger{...}\<close>: a fresh struct in the store.\<close>

definition new_Logger ::
  "('c, 'm, 's) Logger \<Rightarrow> ('c, 'm, 's) world \<Rightarrow> nat \<times> ('c, 'm, 's) world" where
  "new_Logger v w =
     (next_obj w, w\<lparr>objs := (objs w)(next_obj w := v), next_obj := Suc (next_obj w)\<rparr>)"

text \<open>\<^verbatim>\<open>lvl := int32(Info); &lvl\<close>: a fresh cell.\<close>

definition new_int32 ::
  "int32 \<Rightarrow> ('c, 'm, 's) world \<Rightarrow> nat \<times> ('c, 'm, 's) world" where
  "new_int32 v w =
     (next_cell w, w\<lparr>cells := (cells w)(next_cell w := v), next_cell := Suc (next_cell w)\<rparr>)"

definition LoadInt32 :: "nat option \<Rightarrow> ('c, 'm, 's) world \<Rightarrow> int32 result" where
  "LoadInt32 p w =
     (case p of
        None \<Rightarrow> Panic NilPointerDereference
      | Some a \<Rightarrow> Return (cells w a))"

definition StoreInt32 ::
  "nat option \<Rightarrow> int32 \<Rightarrow> ('c, 'm, 's) world \<Rightarrow> unit result \<times> ('c, 'm, 's) world" where
  "StoreInt32 p v w =
     (case p of
        None \<Rightarrow> (Panic NilPointerDereference, w)
      | Some a \<Rightarrow> (Return (), w\<lparr>cells := (cells w)(a := v)\<rparr>))"

text \<open>\<^verbatim>\<open>m.RecordContext(ctx, value)\<close> on a metric.\<close>

definition RecordContext ::
  "'m \<Rightarrow> 'c \<Rightarrow> int \<Rightarrow> ('c, 'm, 's) world \<Rightarrow> ('c, 'm, 's) world" where
  "RecordContext m c v w = w\<lparr>metric_calls := metric_calls w @ [(m, c, v)]\<rparr>"

text \<open>
  \<^verbatim>\<open>_ = l.logger.Log(args...)\<close>: the sink is called with the assembled slice and
  the error it returns is assigned to the blank identifier.
\<close>

definition call_Log ::
  "('c, 's) collaborators \<Rightarrow> 's \<Rightarrow> iface list \<Rightarrow> ('c, 'm, 's) world \<Rightarrow>
     unit result \<times> ('c, 'm, 's) world" where
  "call_Log env s xs w =
     (let _ = Log env s xs in
      (Return (), w\<lparr>log_calls := log_calls w @ [(s, xs)]\<rparr>))"

section \<open>The Logger\<close>

definition New ::
  "('c, 's) collaborators \<Rightarrow> 's \<Rightarrow> ('c, 'm, 's) world \<Rightarrow> nat \<times> ('c, 'm, 's) world" where
  "New env sink w =
     (let (p, w1) = new_int32 Info w in
      new_Logger
        \<lparr>ctx = Background env, args = nil_slice, metric = None, lvl = Some p,
         logger = sink\<rparr> w1)"

definition Logger_SetLevel ::
  "nat \<Rightarrow> Level \<Rightarrow> ('c, 'm, 's) world \<Rightarrow> unit result \<times> ('c, 'm, 's) world" where
  "Logger_SetLevel l v w =
     (let v' = (if v <s Info then Error else if v <s Debug then Info else Debug) in
      StoreInt32 (lvl (objs w l)) v' w)"

definition Logger_Debug ::
  "('c, 's) collaborators \<Rightarrow> nat \<Rightarrow> string \<Rightarrow> iface list \<Rightarrow> ('c, 'm, 's) world \<Rightarrow>
     unit result \<times> ('c, 'm, 's) world" where
  "Logger_Debug env l msg keyValues w =
     (case LoadInt32 (lvl (objs w l)) w of
        Panic p \<Rightarrow> (Panic p, w)
      | Return v \<Rightarrow>
          if v <s Debug then (Return (), w)
          else
            (let a0 = [VString ''msg'', VString msg, VString ''level'', VString ''debug''];
                 a1 = a0 @ KeyValuesFromContext env (ctx (objs w l));
                 a2 = a1 @ elems w (args (objs w l));
                 a3 = a2 @ keyValues
             in call_Log env (logger (objs w l)) a3 w))"

definition Logger_Info ::
  "('c, 's) collaborators \<Rightarrow> nat \<Rightarrow> string \<Rightarrow> iface list \<Rightarrow> ('c, 'm, 's) world \<Rightarrow>
     unit result \<times> ('c, 'm, 's) world" where
  "Logger_Info env l msg keyValues w0 =
     (let w = (case metric (objs w0 l) of
                 None \<Rightarrow> w0
               | Some m \<Rightarrow> RecordContext m (ctx (objs w0 l)) 1 w0)
      in
      case LoadInt32 (lvl (objs w l)) w of
        Panic p \<Rightarrow> (Panic p, w)
      | Return v \<Rightarrow>
          if v <s Info then (Return (), w)
          else
            (let a0 = [VString ''msg'', VString msg, VString ''level'', VString ''info''];
                 a1 = a0 @ KeyValuesFromContext env (ctx (objs w l));
                 a2 = a1 @ elems w (args (objs w l));
                 a3 = a2 @ keyValues
             in call_Log env (logger (objs w l)) a3 w))"

definition Logger_Error ::
  "('c, 's) collaborators \<Rightarrow> nat \<Rightarrow> string \<Rightarrow> error option \<Rightarrow> iface list \<Rightarrow>
     ('c, 'm, 's) world \<Rightarrow> unit result \<times> ('c, 'm, 's) world" where
  "Logger_Error env l msg err keyValues w0 =
     (let w = (case metric (objs w0 l) of
                 None \<Rightarrow> w0
               | Some m \<Rightarrow> RecordContext m (ctx (objs w0 l)) 1 w0)
      in
      case LoadInt32 (lvl (objs w l)) w of
        Panic p \<Rightarrow> (Panic p, w)
      | Return v \<Rightarrow>
          if v <s Error then (Return (), w)
          else
            (let a0 = [VString ''msg'', VString msg, VString ''level'', VString ''error'',
                       VString ''error'', iface_of_error err];
                 a1 = a0 @ KeyValuesFromContext env (ctx (objs w l));
                 a2 = a1 @ elems w (args (objs w l));
                 a3 = a2 @ keyValues
             in call_Log env (logger (objs w l)) a3 w))"

text \<open>\<^verbatim>\<open>keyValues[i]\<close>, with Go's bounds check.\<close>

definition index :: "iface list \<Rightarrow> nat \<Rightarrow> iface result" where
  "index xs i = (if i < length xs then Return (xs ! i) else Panic IndexOutOfRange)"

text \<open>
  The loop of \<^verbatim>\<open>With\<close>, from index \<open>i\<close>: a pair whose key is a string is appended
  to the new Logger's \<open>args\<close>, any other pair is skipped.
\<close>

function With_loop ::
  "('c, 's) collaborators \<Rightarrow> iface list \<Rightarrow> nat \<Rightarrow> nat \<Rightarrow> ('c, 'm, 's) world \<Rightarrow>
     unit result \<times> ('c, 'm, 's) world" where
  "With_loop env keyValues i newLogger w =
     (if i < length keyValues then
        (case index keyValues i of
           Panic p \<Rightarrow> (Panic p, w)
         | Return (VString k) \<Rightarrow>
             (case index keyValues (i + 1) of
                Panic p \<Rightarrow> (Panic p, w)
              | Return v \<Rightarrow>
                  (let (s, w1) = append_slice env (args (objs w newLogger)) [VString k, v] w;
                       w2 = w1\<lparr>objs := (objs w1)(newLogger := (objs w1 newLogger)\<lparr>args := s\<rparr>)\<rparr>
                   in With_loop env keyValues (i + 2) newLogger w2))
         | Return _ \<Rightarrow> With_loop env keyValues (i + 2) newLogger w)
      else (Return (), w))"
  by pat_completeness auto
termination
  by (relation "measure (\<lambda>(env, keyValues, i, newLogger, w). length keyValues - i)") auto

declare With_loop.simps [simp del]

definition Logger_With ::
  "('c, 's) collaborators \<Rightarrow> nat \<Rightarrow> iface list \<Rightarrow> ('c, 'm, 's) world \<Rightarrow>
     nat result \<times> ('c, 'm, 's) world" where
  "Logger_With env l keyValues0 w =
     (if length keyValues0 = 0 then (Return l, w)
      else
        (let keyValues = (if length keyValues0 mod 2 \<noteq> 0
                          then keyValues0 @ [VString ''(MISSING)''] else keyValues0);
             n = slice_len (args (objs w l));
             (a, w1) = make_slice n (n + length keyValues) w;
             (newLogger, w2) =
               new_Logger
                 \<lparr>ctx = ctx (objs w1 l), args = a, metric = metric (objs w1 l),
                  lvl = lvl (objs w1 l), logger = logger (objs w1 l)\<rparr> w1;
             w3 = copy_slice (args (objs w2 newLogger)) (args (objs w2 l)) w2
         in case With_loop env keyValues 0 newLogger w3 of
              (Panic p, w4) \<Rightarrow> (Panic p, w4)
            | (Return _, w4) \<Rightarrow> (Return newLogger, w4)))"

definition Logger_Context ::
  "nat \<Rightarrow> 'c \<Rightarrow> ('c, 'm, 's) world \<Rightarrow> nat \<times> ('c, 'm, 's) world" where
  "Logger_Context l c w =
     (let n = slice_len (args (objs w l));
          (a, w1) = make_slice n n w;
          (newLogger, w2) =
            new_Logger
              \<lparr>ctx = c, args = a, metric = metric (objs w1 l),
               lvl = lvl (objs w1 l), logger = logger (objs w1 l)\<rparr> w1
      in (newLogger, copy_slice (args (objs w2 newLogger)) (args (objs w2 l)) w2))"

definition Logger_Metric ::
  "nat \<Rightarrow> 'm option \<Rightarrow> ('c, 'm, 's) world \<Rightarrow> nat \<times> ('c, 'm, 's) world" where
  "Logger_Metric l m w =
     (let n = slice_len (args (objs w l));
          (a, w1) = make_slice n n w;
          (newLogger, w2) =
            new_Logger
              \<lparr>ctx = ctx (objs w1 l), args = a, metric = m,
               lvl = lvl (objs w1 l), logger = logger (objs w1 l)\<rparr> w1
      in (newLogger, copy_slice (args (objs w2 newLogger)) (args (objs w2 l)) w2))"

section \<open>Client programs\<close>

text \<open>
  A client holds a growing family of Loggers, at first the root alone, and makes calls on
  them one after the other. A step \<open>(j, c)\<close> makes the call \<open>c\<close> on the \<open>j\<close>-th Logger
  of the family; a Logger a derivation returns joins the family. A step that names a
  Logger the family does not have yet is skipped, and a panic ends the program.
\<close>

datatype ('c, 'm) call =
    CallSetLevel Level
  | CallDebug string "iface list"
  | CallInfo string "iface list"
  | CallError string "error option" "iface list"
  | CallWith "iface list"
  | CallContext 'c
  | CallMetric "'m option"

fun do_call ::
  "('c, 's) collaborators \<Rightarrow> ('c, 'm) call \<Rightarrow> nat \<Rightarrow> ('c, 'm, 's) world \<Rightarrow>
     nat option result \<times> ('c, 'm, 's) world" where
  "do_call env (CallSetLevel v) l w =
     (case Logger_SetLevel l v w of
        (Return _, w') \<Rightarrow> (Return None, w')
      | (Panic p, w') \<Rightarrow> (Panic p, w'))"
| "do_call env (CallDebug msg kvs) l w =
     (case Logger_Debug env l msg kvs w of
        (Return _, w') \<Rightarrow> (Return None, w')
      | (Panic p, w') \<Rightarrow> (Panic p, w'))"
| "do_call env (CallInfo msg kvs) l w =
     (case Logger_Info env l msg kvs w of
        (Return _, w') \<Rightarrow> (Return None, w')
      | (Panic p, w') \<Rightarrow> (Panic p, w'))"
| "do_call env (CallError msg err kvs) l w =
     (case Logger_Error env l msg err kvs w of
        (Return _, w') \<Rightarrow> (Return None, w')
      | (Panic p, w') \<Rightarrow> (Panic p, w'))"
| "do_call env (CallWith kvs) l w =
     (case Logger_With env l kvs w of
        (Return q, w') \<Rightarrow> (Return (Some q), w')
      | (Panic p, w') \<Rightarrow> (Panic p, w'))"
| "do_call env (CallContext c) l w =
     (case Logger_Context l c w of (q, w') \<Rightarrow> (Return (Some q), w'))"
| "do_call env (CallMetric m) l w =
     (case Logger_Metric l m w of (q, w') \<Rightarrow> (Return (Some q), w'))"

fun run ::
  "('c, 's) collaborators \<Rightarrow> (nat \<times> ('c, 'm) call) list \<Rightarrow> nat list \<Rightarrow>
     ('c, 'm, 's) world \<Rightarrow> nat list result \<times> ('c, 'm, 's) world" where
  "run env [] ls w = (Return ls, w)"
| "run env ((j, c) # rest) ls w =
     (if j < length ls then
        (case do_call env c (ls ! j) w of
           (Panic p, w') \<Rightarrow> (Panic p, w')
         | (Return None, w') \<Rightarrow> run env rest ls w'
         | (Return (Some q), w') \<Rightarrow> run env rest (ls @ [q]) w')
      else run env rest ls w)"

text \<open>A chain of \<^verbatim>\<open>With\<close> calls, each on the Logger the one before returned.\<close>

fun With_chain ::
  "('c, 's) collaborators \<Rightarrow> nat \<Rightarrow> iface list list \<Rightarrow> ('c, 'm, 's) world \<Rightarrow>
     nat result \<times> ('c, 'm, 's) world" where
  "With_chain env l [] w = (Return l, w)"
| "With_chain env l (kvs # rest) w =
     (case Logger_With env l kvs w of
        (Return q, w') \<Rightarrow> With_chain env q rest w'
      | (Panic p, w') \<Rightarrow> (Panic p, w'))"

section \<open>Specification vocabulary\<close>

text \<open>
  The spec's words for the input of \<open>with\<close>: the flat sequence is padded with the
  sentinel when its count is odd, and read as alternating keys and values; a pair
  survives when its key is a string.
\<close>

definition spec_normalize :: "iface list \<Rightarrow> iface list" where
  "spec_normalize kvs = (if odd (length kvs) then kvs @ [VString ''(MISSING)''] else kvs)"

fun spec_surviving_pairs :: "iface list \<Rightarrow> iface list" where
  "spec_surviving_pairs (VString k # v # rest) = VString k # v # spec_surviving_pairs rest"
| "spec_surviving_pairs (_ # _ # rest) = spec_surviving_pairs rest"
| "spec_surviving_pairs _ = []"

text \<open>The keys of a flat key-value sequence, and whether a value is a string.\<close>

fun spec_keys :: "iface list \<Rightarrow> iface list" where
  "spec_keys (k # v # rest) = k # spec_keys rest"
| "spec_keys [k] = [k]"
| "spec_keys [] = []"

fun is_string :: "iface \<Rightarrow> bool" where
  "is_string (VString _) = True"
| "is_string _ = False"

text \<open>The spec's normalisation of a requested level, on the signed value.\<close>

definition spec_normalized_level :: "Level \<Rightarrow> Level" where
  "spec_normalized_level v =
     (if sint v < 5 then 1 else if sint v < 10 then 5 else 10)"

section \<open>Well-formed stores\<close>

text \<open>
  Go keeps every slice inside its backing array: a nil slice has length and capacity 0,
  any other slice points to an allocated array as long as its capacity and is no longer
  than it. A Logger is live when its struct is allocated and its \<open>args\<close> is such a
  slice.
\<close>

definition wf_slice :: "('c, 'm, 's) world \<Rightarrow> slice \<Rightarrow> bool" where
  "wf_slice w s =
     (case slice_arr s of
        None \<Rightarrow> slice_len s = 0 \<and> slice_cap s = 0
      | Some a \<Rightarrow> a < next_array w \<and> slice_len s \<le> slice_cap s \<and>
                  length (arrays w a) = slice_cap s)"

definition live :: "('c, 'm, 's) world \<Rightarrow> nat \<Rightarrow> bool" where
  "live w l = (l < next_obj w \<and> wf_slice w (args (objs w l)))"

text \<open>
  \<open>extends w w'\<close>: every Logger struct and every backing array allocated in \<open>w\<close> is
  still there, unchanged, in \<open>w'\<close>.
\<close>

definition extends :: "('c, 'm, 's) world \<Rightarrow> ('c, 'm, 's) world \<Rightarrow> bool" where
  "extends w w' =
     (next_obj w \<le> next_obj w' \<and> (\<forall>p<next_obj w. objs w' p = objs w p) \<and>
      next_array w \<le> next_array w' \<and> (\<forall>b<next_array w. arrays w' b = arrays w b))"

text \<open>
  The store after a derivation: one more Logger struct \<open>v\<close> and one more backing array
  \<open>xs\<close>. The store after the loop of \<^verbatim>\<open>With\<close> has written \<open>xs\<close> behind the first
  \<open>n\<close> elements of array \<open>a\<close> and into the \<open>args\<close> of Logger \<open>q\<close>.
\<close>

definition derived ::
  "('c, 'm, 's) Logger \<Rightarrow> iface list \<Rightarrow> ('c, 'm, 's) world \<Rightarrow> ('c, 'm, 's) world" where
  "derived v xs w =
     w\<lparr>objs := (objs w)(next_obj w := v), next_obj := Suc (next_obj w),
       arrays := (arrays w)(next_array w := xs), next_array := Suc (next_array w)\<rparr>"

definition args_written ::
  "nat \<Rightarrow> nat \<Rightarrow> nat \<Rightarrow> nat \<Rightarrow> iface list \<Rightarrow> ('c, 'm, 's) world \<Rightarrow> ('c, 'm, 's) world" where
  "args_written q a n c xs w =
     w\<lparr>objs := (objs w)(q := (objs w q)\<lparr>args :=
            \<lparr>slice_arr = Some a, slice_len = n + length xs, slice_cap = c\<rparr>\<rparr>),
       arrays := (arrays w)(a := take n (arrays w a) @ xs @ drop (n + length xs) (arrays w a))\<rparr>"

definition with_child ::
  "('c, 'm, 's) world \<Rightarrow> nat \<Rightarrow> iface list \<Rightarrow> ('c, 'm, 's) Logger" where
  "with_child w l kvs =
     \<lparr>ctx = ctx (objs w l),
      args = \<lparr>slice_arr = Some (next_array w),
              slice_len = slice_len (args (objs w l)) + length (spec_surviving_pairs kvs),
              slice_cap = slice_len (args (objs w l)) + length kvs\<rparr>,
      metric = metric (objs w l), lvl = lvl (objs w l), logger = logger (objs w l)\<rparr>"

text \<open>
  \<open>ancestor_unchanged env l w w'\<close>: between \<open>w\<close> and \<open>w'\<close> Logger \<open>l\<close> has kept its
  struct and its fields, and every log call on it reaches the sink as before.
\<close>

definition ancestor_unchanged ::
  "('c, 's) collaborators \<Rightarrow> nat \<Rightarrow> ('c, 'm, 's) world \<Rightarrow> ('c, 'm, 's) world \<Rightarrow> bool" where
  "ancestor_unchanged env l w w' =
     (objs w' l = objs w l \<and>
      elems w' (args (objs w' l)) = elems w (args (objs w l)) \<and>
      (\<forall>msg kvs. log_calls (snd (Logger_Debug env l msg kvs w')) =
                  log_calls (snd (Logger_Debug env l msg kvs w))) \<and>
      (\<forall>msg kvs. log_calls (snd (Logger_Info env l msg kvs w')) =
                  log_calls (snd (Logger_Info env l msg kvs w))) \<and>
      (\<forall>msg err kvs. log_calls (snd (Logger_Error env l msg err kvs w')) =
                      log_calls (snd (Logger_Error env l msg err kvs w))))"

text \<open>
  A family of Loggers over the threshold cell \<open>a\<close>; the legal thresholds; and a store
  \<open>w'\<close> whose cells are those of \<open>w\<close> but for cell \<open>a\<close>, which may hold any legal
  threshold.
\<close>

definition family :: "('c, 'm, 's) world \<Rightarrow> nat \<Rightarrow> nat list \<Rightarrow> bool" where
  "family w a ls = (\<forall>q\<in>set ls. live w q \<and> lvl (objs w q) = Some a)"

definition legal :: "Level set" where
  "legal = {Error, Info, Debug}"

definition cells_step :: "('c, 'm, 's) world \<Rightarrow> ('c, 'm, 's) world \<Rightarrow> nat \<Rightarrow> bool" where
  "cells_step w w' a = (\<forall>b. cells w' b = cells w b \<or> (b = a \<and> cells w' b \<in> legal))"

section \<open>A concrete store\<close>

text \<open>
  For running the methods: contexts that are the key-value pairs they carry, sinks and
  metrics that are names, one environment whose sinks never fail and one whose sinks
  always do, the zero value of the \<^verbatim>\<open>Logger\<close> struct, and the empty store.
\<close>

definition example_env :: "(iface list, string) collaborators" where
  "example_env =
     \<lparr>Background = [], KeyValuesFromContext = (\<lambda>c. c), Log = (\<lambda>s xs. None),
      growslice = (\<lambda>c n. 2 * c)\<rparr>"

definition failing_env :: "(iface list, string) collaborators" where
  "failing_env = example_env\<lparr>Log := (\<lambda>s xs. Some (ErrorString ''write failed''))\<rparr>"

definition zero_Logger :: "(iface list, string, string) Logger" where
  "zero_Logger = \<lparr>ctx = [], args = nil_slice, metric = None, lvl = None, logger = []\<rparr>"

definition empty_store :: "(iface list, string, string) world" where
  "empty_store =
     \<lparr>objs = (\<lambda>_. zero_Logger), next_obj = 0, cells = (\<lambda>_. 0), next_cell = 0,
      arrays = (\<lambda>_. []), next_array = 0, log_calls = [], metric_calls = []\<rparr>"

text \<open>The store after \<^verbatim>\<open>New(stdout)\<close>: the root Logger is Logger 0, its cell is cell 0.\<close>

definition root_store :: "(iface list, string, string) world" where
  "root_store = snd (New example_env ''stdout'' empty_store)"

text \<open>
  The root Logger with the metric \<open>requests\<close> attached (Logger 1), and the shared
  threshold then set to Error.
\<close>

definition metric_store :: "(iface list, string, string) world" where
  "metric_store =
     snd (Logger_SetLevel 1 Error (snd (Logger_Metric 0 (Some ''requests'') root_store)))"

text \<open>A client program on the root Logger of \<open>root_store\<close>.\<close>

definition example_steps :: "(nat \<times> (iface list, string) call) list" where
  "example_steps =
     [(0, CallWith [VString ''k'', VInt 1]),
      (1, CallContext [VString ''request'', VInt 7]),
      (2, CallSetLevel (- 7)),
      (0, CallMetric (Some ''requests''))]"

section \<open>What the derivations do to the store\<close>

lemma length_surviving: "length (spec_surviving_pairs xs) \<le> length xs"
  by (induction xs rule: spec_surviving_pairs.induct) auto

lemma args_written_Nil:
  "args (objs w q) = \<lparr>slice_arr = Some a, slice_len = n, slice_cap = c\<rparr> \<Longrightarrow>
   args_written q a n c [] w = w"
proof -
  assume a: "args (objs w q) = \<lparr>slice_arr = Some a, slice_len = n, slice_cap = c\<rparr>"
  have "(objs w q)\<lparr>args := \<lparr>slice_arr = Some a, slice_len = n, slice_cap = c\<rparr>\<rparr> = objs w q"
    using a[symmetric] by simp
  then show ?thesis by (simp add: args_written_def)
qed

lemma args_written_step:
  assumes "n + 2 + length xs \<le> length (arrays w a)"
  shows "args_written q a (n + 2) c xs (args_written q a n c [k, v] w)
       = args_written q a n c (k # v # xs) w"
  using assms by (simp add: args_written_def fun_upd_def drop_append add.commute cong: if_cong)

lemma append_slice_in_place:
  assumes "args (objs w q) = \<lparr>slice_arr = Some a, slice_len = n, slice_cap = c\<rparr>"
    and "n + length xs \<le> c"
  shows "(case append_slice env (args (objs w q)) xs w of (s, w1) \<Rightarrow>
            w1\<lparr>objs := (objs w1)(q := (objs w1 q)\<lparr>args := s\<rparr>)\<rparr>)
         = args_written q a n c xs w"
  using assms by (simp add: append_slice_def args_written_def Let_def)

lemma With_loop_run:
  assumes "args (objs w q) = \<lparr>slice_arr = Some a, slice_len = n, slice_cap = c\<rparr>"
    and "length (arrays w a) = c"
    and "n + (length kvs - i) \<le> c"
    and "even (length kvs)" and "even i"
  shows "With_loop env kvs i q w =
     (Return (), args_written q a n c (spec_surviving_pairs (drop i kvs)) w)"
  using assms
proof (induction "length kvs - i" arbitrary: i n w rule: less_induct)
  case less
  show ?case
  proof (cases "i < length kvs")
    case False
    then show ?thesis
      by (subst With_loop.simps) (simp add: args_written_Nil [OF less.prems(1)])
  next
    case True
    with less.prems have i1: "i + 1 < length kvs"
      by (metis Suc_eq_plus1 Suc_lessI even_Suc)
    have d: "drop i kvs = kvs ! i # kvs ! (i + 1) # drop (i + 2) kvs"
      using i1 True by (simp add: Cons_nth_drop_Suc)
    have m: "length kvs - (i + 2) < length kvs - i" using True by simp
    have ev: "even (i + 2)" using less.prems by simp
    show ?thesis
    proof (cases "\<exists>k. kvs ! i = VString k")
      case False
      then have s: "spec_surviving_pairs (drop i kvs) = spec_surviving_pairs (drop (i + 2) kvs)"
        unfolding d by (cases "kvs ! i") auto
      have "n + (length kvs - (i + 2)) \<le> c" using less.prems by simp
      from less.hyps [OF m less.prems(1,2) this less.prems(4) ev]
      have ih: "With_loop env kvs (i + 2) q w =
          (Return (), args_written q a n c (spec_surviving_pairs (drop (i + 2) kvs)) w)" .
      have "With_loop env kvs i q w = With_loop env kvs (i + 2) q w"
        using True False by (subst With_loop.simps) (simp add: index_def split: iface.splits)
      then show ?thesis by (simp only: ih s)
    next
      case kstr: True
      then obtain k where k: "kvs ! i = VString k" by blast
      define w2 where "w2 = args_written q a n c [VString k, kvs ! (i + 1)] w"
      have s: "spec_surviving_pairs (drop i kvs)
             = VString k # kvs ! (i + 1) # spec_surviving_pairs (drop (i + 2) kvs)"
        unfolding d k by simp
      have n2: "n + 2 \<le> c" using less.prems True i1 by simp
      have st: "With_loop env kvs i q w = With_loop env kvs (i + 2) q w2"
        using True i1 k append_slice_in_place [OF less.prems(1), of "[VString k, kvs ! (i + 1)]" env] n2
        apply (subst With_loop.simps)
        apply (simp add: index_def w2_def split: prod.splits)
        done
      have a2: "args (objs w2 q) = \<lparr>slice_arr = Some a, slice_len = n + 2, slice_cap = c\<rparr>"
        by (simp add: w2_def args_written_def)
      have l2: "length (arrays w2 a) = c"
        using less.prems n2 by (simp add: w2_def args_written_def)
      have c2: "n + 2 + (length kvs - (i + 2)) \<le> c" using less.prems i1 by simp
      from less.hyps [OF m a2 l2 c2 less.prems(4) ev]
      have ih: "With_loop env kvs (i + 2) q w2 =
          (Return (), args_written q a (n + 2) c (spec_surviving_pairs (drop (i + 2) kvs)) w2)" .
      have "n + 2 + length (spec_surviving_pairs (drop (i + 2) kvs)) \<le> length (arrays w a)"
        using c2 length_surviving [of "drop (i + 2) kvs"] less.prems(2) by simp
      from args_written_step [OF this, of q c "VString k" "kvs ! (i + 1)"]
      have "args_written q a (n + 2) c (spec_surviving_pairs (drop (i + 2) kvs)) w2
          = args_written q a n c (spec_surviving_pairs (drop i kvs)) w"
        by (simp only: s w2_def)
      then show ?thesis by (simp only: st ih)
    qed
  qed
qed

lemma even_spec_normalize: "even (length (spec_normalize kvs))"
  by (simp add: spec_normalize_def)

lemma length_elems: "wf_slice w s \<Longrightarrow> length (elems w s) = slice_len s"
  by (auto simp: wf_slice_def elems_def split: option.splits)

lemma copy_into_fresh:
  assumes "l < next_obj w" and "wf_slice w (args (objs w l))"
  shows "copy_slice \<lparr>slice_arr = Some (next_array w), slice_len = slice_len (args (objs w l)), slice_cap = c\<rparr>
           (args (objs w l))
           (w\<lparr>arrays := (arrays w)(next_array w := replicate c VNil), next_array := Suc (next_array w),
              objs := (objs w)(next_obj w := v), next_obj := Suc (next_obj w)\<rparr>)
       = derived v (elems w (args (objs w l)) @ replicate (c - slice_len (args (objs w l))) VNil) w"
  using assms
  by (auto simp: copy_slice_def derived_def elems_def wf_slice_def Let_def split: option.splits)

lemma args_written_derived:
  assumes "args v = \<lparr>slice_arr = Some (next_array w), slice_len = n, slice_cap = c\<rparr>"
    and "length ys = n" and "length xs \<le> m"
  shows "args_written (next_obj w) (next_array w) n c xs (derived v (ys @ replicate m VNil) w)
       = derived (v\<lparr>args := \<lparr>slice_arr = Some (next_array w), slice_len = n + length xs, slice_cap = c\<rparr>\<rparr>)
           (ys @ xs @ replicate (m - length xs) VNil) w"
  using assms by (simp add: args_written_def derived_def)

lemma Logger_With_run:
  assumes "live w l" and "kvs \<noteq> []"
  shows "Logger_With env l kvs w =
     (Return (next_obj w),
      derived (with_child w l (spec_normalize kvs))
        (elems w (args (objs w l)) @ spec_surviving_pairs (spec_normalize kvs)
           @ replicate (length (spec_normalize kvs) - length (spec_surviving_pairs (spec_normalize kvs))) VNil) w)"
proof -
  let ?P = "objs w l"
  let ?n = "slice_len (args ?P)"
  let ?kv = "spec_normalize kvs"
  let ?S = "spec_surviving_pairs ?kv"
  let ?v = "\<lparr>ctx = ctx ?P, args = \<lparr>slice_arr = Some (next_array w), slice_len = ?n, slice_cap = ?n + length ?kv\<rparr>,
             metric = metric ?P, lvl = lvl ?P, logger = logger ?P\<rparr>"
  let ?w3 = "derived ?v (elems w (args ?P) @ replicate (length ?kv) VNil) w"
  from assms have lt: "l < next_obj w" and wf: "wf_slice w (args ?P)"
    by (simp_all add: live_def)
  have kv: "(if length kvs mod 2 \<noteq> 0 then kvs @ [VString ''(MISSING)''] else kvs) = ?kv"
    by (simp add: spec_normalize_def odd_iff_mod_2_eq_one)
  have le: "length (elems w (args ?P)) = ?n" by (rule length_elems [OF wf])
  have a3: "args (objs ?w3 (next_obj w)) =
      \<lparr>slice_arr = Some (next_array w), slice_len = ?n, slice_cap = ?n + length ?kv\<rparr>"
    by (simp add: derived_def)
  have l3: "length (arrays ?w3 (next_array w)) = ?n + length ?kv"
    by (simp add: derived_def le)
  have loop: "With_loop env ?kv 0 (next_obj w) ?w3 =
      (Return (), args_written (next_obj w) (next_array w) ?n (?n + length ?kv) ?S ?w3)"
    using With_loop_run [OF a3 l3, of ?kv 0 env] even_spec_normalize [of kvs] by simp
  have fin: "args_written (next_obj w) (next_array w) ?n (?n + length ?kv) ?S ?w3
      = derived (with_child w l ?kv)
          (elems w (args ?P) @ ?S @ replicate (length ?kv - length ?S) VNil) w"
    using args_written_derived [of ?v w ?n "?n + length ?kv" "elems w (args ?P)" ?S "length ?kv"]
      le length_surviving [of ?kv]
    by (simp add: with_child_def)
  have pre: "copy_slice \<lparr>slice_arr = Some (next_array w), slice_len = ?n, slice_cap = ?n + length ?kv\<rparr>
           (args ?P)
           (w\<lparr>arrays := (arrays w)(next_array w := replicate (?n + length ?kv) VNil),
              next_array := Suc (next_array w),
              objs := (objs w)(next_obj w := ?v), next_obj := Suc (next_obj w)\<rparr>) = ?w3"
    using copy_into_fresh [OF lt wf, of "?n + length ?kv" ?v] by simp
  show ?thesis
    using assms(2) lt
    unfolding Logger_With_def kv
    by (simp add: make_slice_def new_Logger_def Let_def pre loop fin)
qed


lemma Logger_Context_run:
  assumes "live w l"
  shows "Logger_Context l c w =
     (next_obj w,
      derived \<lparr>ctx = c,
               args = \<lparr>slice_arr = Some (next_array w), slice_len = slice_len (args (objs w l)),
                       slice_cap = slice_len (args (objs w l))\<rparr>,
               metric = metric (objs w l), lvl = lvl (objs w l), logger = logger (objs w l)\<rparr>
        (elems w (args (objs w l))) w)"
proof -
  from assms have lt: "l < next_obj w" and wf: "wf_slice w (args (objs w l))"
    by (simp_all add: live_def)
  show ?thesis
    using lt copy_into_fresh [OF lt wf, of "slice_len (args (objs w l))"]
    unfolding Logger_Context_def
    by (simp add: make_slice_def new_Logger_def Let_def)
qed

lemma Logger_Metric_run:
  assumes "live w l"
  shows "Logger_Metric l m w =
     (next_obj w,
      derived \<lparr>ctx = ctx (objs w l),
               args = \<lparr>slice_arr = Some (next_array w), slice_len = slice_len (args (objs w l)),
                       slice_cap = slice_len (args (objs w l))\<rparr>,
               metric = m, lvl = lvl (objs w l), logger = logger (objs w l)\<rparr>
        (elems w (args (objs w l))) w)"
proof -
  from assms have lt: "l < next_obj w" and wf: "wf_slice w (args (objs w l))"
    by (simp_all add: live_def)
  show ?thesis
    using lt copy_into_fresh [OF lt wf, of "slice_len (args (objs w l))"]
    unfolding Logger_Metric_def
    by (simp add: make_slice_def new_Logger_def Let_def)
qed

lemma extends_refl: "extends w w"
  by (simp add: extends_def)

lemma extends_trans: "extends w w1 \<Longrightarrow> extends w1 w2 \<Longrightarrow> extends w w2"
  by (auto simp: extends_def)

lemma extends_derived: "extends w (derived v xs w)"
  by (simp add: extends_def derived_def)

lemma extends_objs: "extends w w' \<Longrightarrow> p < next_obj w \<Longrightarrow> objs w' p = objs w p"
  by (simp add: extends_def)

lemma extends_wf_slice: "extends w w' \<Longrightarrow> wf_slice w s \<Longrightarrow> wf_slice w' s"
  by (auto simp: extends_def wf_slice_def split: option.splits)

lemma extends_elems: "extends w w' \<Longrightarrow> wf_slice w s \<Longrightarrow> elems w' s = elems w s"
  by (auto simp: extends_def wf_slice_def elems_def split: option.splits)

lemma extends_live: "extends w w' \<Longrightarrow> live w p \<Longrightarrow> live w' p"
  by (auto simp: live_def extends_objs extends_wf_slice) (simp add: extends_def)

lemma live_derived:
  assumes "args v = \<lparr>slice_arr = Some (next_array w), slice_len = n, slice_cap = c\<rparr>"
    and "n \<le> c" and "length xs = c"
  shows "live (derived v xs w) (next_obj w)"
  using assms by (simp add: live_def derived_def wf_slice_def)

lemma elems_derived:
  assumes "args v = \<lparr>slice_arr = Some (next_array w), slice_len = n, slice_cap = c\<rparr>"
  shows "elems (derived v xs w) (args (objs (derived v xs w) (next_obj w))) = take n xs"
  using assms by (simp add: derived_def elems_def)

lemma objs_derived_new: "objs (derived v xs w) (next_obj w) = v"
  by (simp add: derived_def)

lemma derived_other [simp]:
  "cells (derived v xs w) = cells w" "next_cell (derived v xs w) = next_cell w"
  "log_calls (derived v xs w) = log_calls w" "metric_calls (derived v xs w) = metric_calls w"
  by (simp_all add: derived_def)


lemma Logger_With_post:
  assumes "live w l" and "kvs \<noteq> []"
  shows "\<exists>w'. Logger_With env l kvs w = (Return (next_obj w), w') \<and>
           extends w w' \<and> live w' (next_obj w) \<and>
           ctx (objs w' (next_obj w)) = ctx (objs w l) \<and>
           metric (objs w' (next_obj w)) = metric (objs w l) \<and>
           lvl (objs w' (next_obj w)) = lvl (objs w l) \<and>
           logger (objs w' (next_obj w)) = logger (objs w l) \<and>
           slice_arr (args (objs w' (next_obj w))) = Some (next_array w) \<and>
           elems w' (args (objs w' (next_obj w))) =
             elems w (args (objs w l)) @ spec_surviving_pairs (spec_normalize kvs) \<and>
           cells w' = cells w \<and> next_cell w' = next_cell w \<and>
           log_calls w' = log_calls w \<and> metric_calls w' = metric_calls w"
proof -
  let ?kv = "spec_normalize kvs"
  let ?S = "spec_surviving_pairs ?kv"
  let ?xs = "elems w (args (objs w l)) @ ?S @ replicate (length ?kv - length ?S) VNil"
  let ?v = "with_child w l ?kv"
  from assms have wf: "wf_slice w (args (objs w l))" by (simp add: live_def)
  have le: "length (elems w (args (objs w l))) = slice_len (args (objs w l))"
    by (rule length_elems [OF wf])
  have av: "args ?v = \<lparr>slice_arr = Some (next_array w),
      slice_len = slice_len (args (objs w l)) + length ?S,
      slice_cap = slice_len (args (objs w l)) + length ?kv\<rparr>"
    by (simp add: with_child_def)
  have lx: "length ?xs = slice_len (args (objs w l)) + length ?kv"
    using le length_surviving [of ?kv] by simp
  have lv: "live (derived ?v ?xs w) (next_obj w)"
    using live_derived [OF av _ lx] length_surviving [of ?kv] by simp
  have el: "elems (derived ?v ?xs w) (args (objs (derived ?v ?xs w) (next_obj w)))
      = elems w (args (objs w l)) @ ?S"
    using elems_derived [OF av, of ?xs] le by simp
  show ?thesis
    unfolding Logger_With_run [OF assms]
    using lv el extends_derived [of w ?v ?xs]
    by (simp add: objs_derived_new) (simp add: with_child_def)
qed

lemma Logger_Context_post:
  assumes "live w l"
  shows "\<exists>w'. Logger_Context l c w = (next_obj w, w') \<and>
           extends w w' \<and> live w' (next_obj w) \<and>
           ctx (objs w' (next_obj w)) = c \<and>
           metric (objs w' (next_obj w)) = metric (objs w l) \<and>
           lvl (objs w' (next_obj w)) = lvl (objs w l) \<and>
           logger (objs w' (next_obj w)) = logger (objs w l) \<and>
           slice_arr (args (objs w' (next_obj w))) = Some (next_array w) \<and>
           elems w' (args (objs w' (next_obj w))) = elems w (args (objs w l)) \<and>
           cells w' = cells w \<and> next_cell w' = next_cell w \<and>
           log_calls w' = log_calls w \<and> metric_calls w' = metric_calls w"
proof -
  let ?n = "slice_len (args (objs w l))"
  let ?xs = "elems w (args (objs w l))"
  let ?v = "\<lparr>ctx = c, args = \<lparr>slice_arr = Some (next_array w), slice_len = ?n, slice_cap = ?n\<rparr>,
             metric = metric (objs w l), lvl = lvl (objs w l), logger = logger (objs w l)\<rparr>"
  from assms have wf: "wf_slice w (args (objs w l))" by (simp add: live_def)
  have le: "length ?xs = ?n" by (rule length_elems [OF wf])
  have av: "args ?v = \<lparr>slice_arr = Some (next_array w), slice_len = ?n, slice_cap = ?n\<rparr>"
    by simp
  have lv: "live (derived ?v ?xs w) (next_obj w)"
    using live_derived [OF av _ le] by simp
  have el: "elems (derived ?v ?xs w) (args (objs (derived ?v ?xs w) (next_obj w))) = ?xs"
    using elems_derived [OF av, of ?xs] le by simp
  show ?thesis
    unfolding Logger_Context_run [OF assms]
    using lv el extends_derived [of w ?v ?xs]
    by (simp add: objs_derived_new)
qed

lemma Logger_Metric_post:
  assumes "live w l"
  shows "\<exists>w'. Logger_Metric l m w = (next_obj w, w') \<and>
           extends w w' \<and> live w' (next_obj w) \<and>
           ctx (objs w' (next_obj w)) = ctx (objs w l) \<and>
           metric (objs w' (next_obj w)) = m \<and>
           lvl (objs w' (next_obj w)) = lvl (objs w l) \<and>
           logger (objs w' (next_obj w)) = logger (objs w l) \<and>
           slice_arr (args (objs w' (next_obj w))) = Some (next_array w) \<and>
           elems w' (args (objs w' (next_obj w))) = elems w (args (objs w l)) \<and>
           cells w' = cells w \<and> next_cell w' = next_cell w \<and>
           log_calls w' = log_calls w \<and> metric_calls w' = metric_calls w"
proof -
  let ?n = "slice_len (args (objs w l))"
  let ?xs = "elems w (args (objs w l))"
  let ?v = "\<lparr>ctx = ctx (objs w l), args = \<lparr>slice_arr = Some (next_array w), slice_len = ?n, slice_cap = ?n\<rparr>,
             metric = m, lvl = lvl (objs w l), logger = logger (objs w l)\<rparr>"
  from assms have wf: "wf_slice w (args (objs w l))" by (simp add: live_def)
  have le: "length ?xs = ?n" by (rule length_elems [OF wf])
  have av: "args ?v = \<lparr>slice_arr = Some (next_array w), slice_len = ?n, slice_cap = ?n\<rparr>"
    by simp
  have lv: "live (derived ?v ?xs w) (next_obj w)"
    using live_derived [OF av _ le] by simp
  have el: "elems (derived ?v ?xs w) (args (objs (derived ?v ?xs w) (next_obj w))) = ?xs"
    using elems_derived [OF av, of ?xs] le by simp
  show ?thesis
    unfolding Logger_Metric_run [OF assms]
    using lv el extends_derived [of w ?v ?xs]
    by (simp add: objs_derived_new)
qed

section \<open>Levels and the threshold cell\<close>

lemma SetLevel_Some:
  "lvl (objs w l) = Some a \<Longrightarrow>
   Logger_SetLevel l v w = (Return (), w\<lparr>cells := (cells w)(a := spec_normalized_level v)\<rparr>)"
  by (simp add: Logger_SetLevel_def StoreInt32_def spec_normalized_level_def
      word_sless_alt Error_def Info_def Debug_def)

text \<open>
  A Logger that was not built by \<^verbatim>\<open>New\<close> or derived from one that was, such as the
  zero value of the struct, has a nil level pointer: it has no threshold to read, and
  every method that touches the level panics.
\<close>

lemma nil_level_pointer_panics:
  assumes "lvl (objs w l) = None"
  shows "fst (Logger_SetLevel l v w) = Panic NilPointerDereference"
    and "fst (Logger_Debug env l msg kvs w) = Panic NilPointerDereference"
    and "fst (Logger_Info env l msg kvs w) = Panic NilPointerDereference"
    and "fst (Logger_Error env l msg err kvs w) = Panic NilPointerDereference"
  using assms
  by (simp_all add: Logger_SetLevel_def Logger_Debug_def Logger_Info_def Logger_Error_def
      StoreInt32_def LoadInt32_def RecordContext_def split: option.splits)

lemma zero_Logger_has_no_threshold:
  "LoadInt32 (lvl zero_Logger) w = Panic NilPointerDereference"
  by (simp add: zero_Logger_def LoadInt32_def)

lemma root_store_eq:
  "root_store =
     \<lparr>objs = (\<lambda>_. zero_Logger)
        (0 := \<lparr>ctx = [], args = nil_slice, metric = None, lvl = Some 0, logger = ''stdout''\<rparr>),
      next_obj = Suc 0, cells = (\<lambda>_. 0)(0 := 5), next_cell = Suc 0,
      arrays = (\<lambda>_. []), next_array = 0, log_calls = [], metric_calls = []\<rparr>"
  by (simp add: root_store_def New_def new_int32_def new_Logger_def empty_store_def
      example_env_def Info_def)

text \<open>
  C5: for every requested level \<open>L\<close>, \<^verbatim>\<open>SetLevel(L)\<close> on a Logger that has a threshold
  cell returns normally, and the threshold read afterwards is Error if
  \<open>L < Info\<close>, Info if \<open>Info \<le> L < Debug\<close>, and Debug if \<open>L \<ge> Debug\<close> (as signed 32-bit
  values); the stored value is one of these three.
\<close>

theorem SetLevel_then_currentLevel:
  assumes "lvl (objs w l) = Some a"
  shows "\<exists>w'. Logger_SetLevel l L w = (Return (), w') \<and>
           LoadInt32 (lvl (objs w' l)) w' =
             Return (if sint L < sint Info then Error
                     else if sint L < sint Debug then Info else Debug) \<and>
           cells w' a \<in> {Error, Info, Debug}"
  using assms
  by (simp add: SetLevel_Some LoadInt32_def spec_normalized_level_def
      Error_def Info_def Debug_def)

theorem SetLevel_then_currentLevel_witness:
  "lvl (objs root_store 0) = Some 0 \<and>
   (\<exists>w'. Logger_SetLevel 0 7 root_store = (Return (), w') \<and>
      LoadInt32 (lvl (objs w' 0)) w' = Return Info \<and>
      cells w' 0 \<in> {Error, Info, Debug})"
proof -
  have h: "lvl (objs root_store 0) = Some 0"
    by (simp add: root_store_eq)
  show ?thesis
    using h SetLevel_then_currentLevel [OF h, of 7]
    by (simp add: Info_def Debug_def)
qed

section \<open>Metric, gating and payload\<close>

lemma metric_store_eq:
  "metric_store =
     \<lparr>objs = (\<lambda>_. zero_Logger)
        (0 := \<lparr>ctx = [], args = nil_slice, metric = None, lvl = Some 0, logger = ''stdout''\<rparr>,
         1 := \<lparr>ctx = [], args = \<lparr>slice_arr = Some 0, slice_len = 0, slice_cap = 0\<rparr>,
               metric = Some ''requests'', lvl = Some 0, logger = ''stdout''\<rparr>),
      next_obj = 2, cells = (\<lambda>_. 0)(0 := 1), next_cell = Suc 0,
      arrays = (\<lambda>_. [])(0 := []), next_array = Suc 0, log_calls = [], metric_calls = []\<rparr>"
  by (simp add: metric_store_def root_store_eq Logger_Metric_def Logger_SetLevel_def
      make_slice_def new_Logger_def copy_slice_def StoreInt32_def elems_def nil_slice_def
      Error_def Info_def Debug_def word_sless_alt Let_def)

text \<open>
  C2: every call of \<^verbatim>\<open>Info\<close> or \<^verbatim>\<open>Error\<close> on a Logger with a metric attached
  records the metric exactly once, with the Logger's context and the value 1, whatever
  the threshold is (and even when the Logger has no threshold cell); with no metric
  attached nothing is recorded; \<^verbatim>\<open>Debug\<close> never records.
\<close>

theorem metric_recorded:
  "metric_calls (snd (Logger_Info env l msg kvs w)) =
     metric_calls w @ (case metric (objs w l) of
                         None \<Rightarrow> []
                       | Some m \<Rightarrow> [(m, ctx (objs w l), 1)]) \<and>
   metric_calls (snd (Logger_Error env l msg err kvs w)) =
     metric_calls w @ (case metric (objs w l) of
                         None \<Rightarrow> []
                       | Some m \<Rightarrow> [(m, ctx (objs w l), 1)]) \<and>
   metric_calls (snd (Logger_Debug env l msg kvs w)) = metric_calls w"
  by (simp add: Logger_Info_def Logger_Error_def Logger_Debug_def LoadInt32_def
      RecordContext_def call_Log_def Let_def split: option.splits)

theorem metric_recorded_witness:
  "log_calls (snd (Logger_Info example_env 1 ''slow'' [] metric_store)) = [] \<and>
   metric_calls (snd (Logger_Info example_env 1 ''slow'' [] metric_store))
     = [(''requests'', [], 1)] \<and>
   metric_calls (snd (Logger_Error example_env 1 ''slow'' None [] metric_store))
     = [(''requests'', [], 1)] \<and>
   metric_calls (snd (Logger_Debug example_env 1 ''slow'' [] metric_store)) = [] \<and>
   metric_calls (snd (Logger_Info example_env 0 ''slow'' [] metric_store)) = []"
proof -
  have a: "metric (objs metric_store (Suc 0)) = Some ''requests''"
    and b: "metric (objs metric_store 0) = None"
    and c: "ctx (objs metric_store (Suc 0)) = []" and d: "metric_calls metric_store = []"
    by (simp_all add: metric_store_eq)
  have e: "log_calls (snd (Logger_Info example_env 1 ''slow'' [] metric_store)) = []"
    by (simp add: metric_store_eq Logger_Info_def LoadInt32_def RecordContext_def
        Info_def word_sless_alt)
  show ?thesis
    using metric_recorded [where env = example_env and l = 1 and msg = "''slow''" and kvs = "[]"
        and w = metric_store and err = None]
      metric_recorded [where env = example_env and l = 0 and msg = "''slow''" and kvs = "[]"
        and w = metric_store and err = None] e
    by (simp add: a b c d)
qed

lemma With_chain_post:
  assumes "live w l"
  shows "\<exists>q w'. With_chain env l ks w = (Return q, w') \<and>
           extends w w' \<and> live w' q \<and>
           ctx (objs w' q) = ctx (objs w l) \<and>
           metric (objs w' q) = metric (objs w l) \<and>
           lvl (objs w' q) = lvl (objs w l) \<and>
           logger (objs w' q) = logger (objs w l) \<and>
           elems w' (args (objs w' q)) =
             elems w (args (objs w l)) @
             concat (map (\<lambda>k. spec_surviving_pairs (spec_normalize k)) ks) \<and>
           cells w' = cells w \<and> next_cell w' = next_cell w \<and>
           log_calls w' = log_calls w \<and> metric_calls w' = metric_calls w"
  using assms
proof (induction ks arbitrary: l w)
  case Nil
  then show ?case by (simp add: extends_refl)
next
  case (Cons k ks)
  show ?case
  proof (cases "k = []")
    case True
    have "Logger_With env l k w = (Return l, w)"
      using True by (simp add: Logger_With_def)
    moreover have "spec_surviving_pairs (spec_normalize k) = []"
      using True by (simp add: spec_normalize_def)
    ultimately show ?thesis using Cons.IH [OF Cons.prems, of] by simp
  next
    case False
    from Logger_With_post [OF Cons.prems False, of env]
    obtain w1 where w1: "Logger_With env l k w = (Return (next_obj w), w1)"
      and e1: "extends w w1" and l1: "live w1 (next_obj w)"
      and f1: "ctx (objs w1 (next_obj w)) = ctx (objs w l)"
        "metric (objs w1 (next_obj w)) = metric (objs w l)"
        "lvl (objs w1 (next_obj w)) = lvl (objs w l)"
        "logger (objs w1 (next_obj w)) = logger (objs w l)"
      and el1: "elems w1 (args (objs w1 (next_obj w))) =
             elems w (args (objs w l)) @ spec_surviving_pairs (spec_normalize k)"
      and r1: "cells w1 = cells w" "next_cell w1 = next_cell w"
        "log_calls w1 = log_calls w" "metric_calls w1 = metric_calls w"
      by blast
    from Cons.IH [OF l1]
    obtain q w' where q: "With_chain env (next_obj w) ks w1 = (Return q, w')"
      and e2: "extends w1 w'" and l2: "live w' q"
      and f2: "ctx (objs w' q) = ctx (objs w1 (next_obj w))"
        "metric (objs w' q) = metric (objs w1 (next_obj w))"
        "lvl (objs w' q) = lvl (objs w1 (next_obj w))"
        "logger (objs w' q) = logger (objs w1 (next_obj w))"
      and el2: "elems w' (args (objs w' q)) =
             elems w1 (args (objs w1 (next_obj w))) @
             concat (map (\<lambda>k. spec_surviving_pairs (spec_normalize k)) ks)"
      and r2: "cells w' = cells w1" "next_cell w' = next_cell w1"
        "log_calls w' = log_calls w1" "metric_calls w' = metric_calls w1"
      by blast
    have "With_chain env l (k # ks) w = (Return q, w')"
      by (simp add: w1 q)
    then show ?thesis
      using extends_trans [OF e1 e2] l2 f1 f2 el1 el2 r1 r2 by simp
  qed
qed

lemma levelToString_simps:
  "levelToString Debug = Some ''debug''" "levelToString Info = Some ''info''"
  "levelToString Error = Some ''error''" "levelToString None_lvl = Some ''none''"
  by (simp_all add: levelToString_def Debug_def Info_def Error_def None_lvl_def)

lemma levelToString_numerals:
  "levelToString 10 = Some ''debug''" "levelToString 5 = Some ''info''"
  "levelToString 1 = Some ''error''" "levelToString 0 = Some ''none''"
  by (simp_all add: levelToString_def Debug_def Info_def Error_def None_lvl_def)

lemma example_env_simps:
  "Background example_env = []" "KeyValuesFromContext example_env c = c"
  "Log example_env s xs = None"
  by (simp_all add: example_env_def)

lemma not_sless: "(\<not> v <s u) = (sint u \<le> sint v)"
  by (simp add: word_sless_alt not_less)

lemma Logger_Debug_Some:
  assumes "lvl (objs w l) = Some a"
  shows "Logger_Debug env l msg kvs w =
     (Return (),
      w\<lparr>log_calls := log_calls w @
          (if sint Debug \<le> sint (cells w a)
           then [(logger (objs w l),
                  [VString ''msg'', VString msg, VString ''level'', VString ''debug''] @
                  KeyValuesFromContext env (ctx (objs w l)) @ elems w (args (objs w l)) @ kvs)]
           else [])\<rparr>)"
  using assms
  by (simp add: Logger_Debug_def LoadInt32_def call_Log_def not_sless [symmetric])

lemma Logger_Info_Some:
  assumes "lvl (objs w l) = Some a"
  shows "Logger_Info env l msg kvs w =
     (Return (),
      w\<lparr>metric_calls := metric_calls w @
          (case metric (objs w l) of None \<Rightarrow> [] | Some m \<Rightarrow> [(m, ctx (objs w l), 1)]),
        log_calls := log_calls w @
          (if sint Info \<le> sint (cells w a)
           then [(logger (objs w l),
                  [VString ''msg'', VString msg, VString ''level'', VString ''info''] @
                  KeyValuesFromContext env (ctx (objs w l)) @ elems w (args (objs w l)) @ kvs)]
           else [])\<rparr>)"
  using assms
  by (simp add: Logger_Info_def LoadInt32_def call_Log_def RecordContext_def elems_def
      not_sless [symmetric] split: option.splits)

lemma Logger_Error_Some:
  assumes "lvl (objs w l) = Some a"
  shows "Logger_Error env l msg err kvs w =
     (Return (),
      w\<lparr>metric_calls := metric_calls w @
          (case metric (objs w l) of None \<Rightarrow> [] | Some m \<Rightarrow> [(m, ctx (objs w l), 1)]),
        log_calls := log_calls w @
          (if sint Error \<le> sint (cells w a)
           then [(logger (objs w l),
                  [VString ''msg'', VString msg, VString ''level'', VString ''error'',
                   VString ''error'', iface_of_error err] @
                  KeyValuesFromContext env (ctx (objs w l)) @ elems w (args (objs w l)) @ kvs)]
           else [])\<rparr>)"
  using assms
  by (simp add: Logger_Error_def LoadInt32_def call_Log_def RecordContext_def elems_def
      not_sless [symmetric] split: option.splits)

text \<open>
  C3: on a Logger with a threshold cell, \<^verbatim>\<open>Debug\<close> calls the Logger's sink exactly once
  if the threshold is at least Debug (10) and not at all otherwise; \<^verbatim>\<open>Info\<close> likewise
  with Info (5), \<^verbatim>\<open>Error\<close> with Error (1). Earlier sink calls stay as they are.
\<close>

theorem gating:
  assumes "lvl (objs w l) = Some a"
  shows "(\<exists>xs. log_calls (snd (Logger_Debug env l msg kvs w)) =
            log_calls w @
            (if sint Debug \<le> sint (cells w a) then [(logger (objs w l), xs)] else [])) \<and>
         (\<exists>xs. log_calls (snd (Logger_Info env l msg kvs w)) =
            log_calls w @
            (if sint Info \<le> sint (cells w a) then [(logger (objs w l), xs)] else [])) \<and>
         (\<exists>xs. log_calls (snd (Logger_Error env l msg err kvs w)) =
            log_calls w @
            (if sint Error \<le> sint (cells w a) then [(logger (objs w l), xs)] else []))"
  by (simp add: Logger_Debug_Some [OF assms] Logger_Info_Some [OF assms]
      Logger_Error_Some [OF assms])


lemma root_store_facts:
  "lvl (objs root_store 0) = Some 0" "live root_store 0" "cells root_store 0 = 5"
  "log_calls root_store = []" "metric_calls root_store = []"
  "logger (objs root_store 0) = ''stdout''" "ctx (objs root_store 0) = []"
  "elems root_store (args (objs root_store 0)) = []" "metric (objs root_store 0) = None"
  by (simp_all add: root_store_eq live_def wf_slice_def nil_slice_def elems_def)

theorem gating_witness:
  "lvl (objs root_store 0) = Some 0 \<and>
   log_calls (snd (Logger_Debug example_env 0 ''tick'' [] root_store)) = [] \<and>
   length (log_calls (snd (Logger_Info example_env 0 ''tick'' [] root_store))) = 1 \<and>
   length (log_calls (snd (Logger_Error example_env 0 ''tick'' None [] root_store))) = 1"
  using gating [OF root_store_facts(1), of example_env "''tick''" "[]" None]
  by (auto simp: root_store_facts Debug_def Info_def Error_def)

text \<open>
  C4: the key-value sequence an emitted call hands to the sink is \<open>msg\<close> and the
  message, \<open>level\<close> and the name of the call's own level, for \<^verbatim>\<open>Error\<close> only
  \<open>error\<close> and the error (nil when there is none), then the pairs of the context,
  then the Logger's fields (those of its ancestor followed by what each \<^verbatim>\<open>With\<close> of
  the chain attached, in that order), then the pairs of the call.
\<close>

theorem payload_order:
  assumes "live w l" and "lvl (objs w l) = Some a"
  shows "\<exists>q w'. With_chain env l ks w = (Return q, w') \<and>
     log_calls (snd (Logger_Debug env q msg kvs w')) =
       log_calls w @
       (if sint Debug \<le> sint (cells w a)
        then [(logger (objs w l),
               [VString ''msg'', VString msg,
                VString ''level'', VString (the (levelToString Debug))] @
               KeyValuesFromContext env (ctx (objs w l)) @
               (elems w (args (objs w l)) @
                concat (map (\<lambda>k. spec_surviving_pairs (spec_normalize k)) ks)) @
               kvs)]
        else []) \<and>
     log_calls (snd (Logger_Info env q msg kvs w')) =
       log_calls w @
       (if sint Info \<le> sint (cells w a)
        then [(logger (objs w l),
               [VString ''msg'', VString msg,
                VString ''level'', VString (the (levelToString Info))] @
               KeyValuesFromContext env (ctx (objs w l)) @
               (elems w (args (objs w l)) @
                concat (map (\<lambda>k. spec_surviving_pairs (spec_normalize k)) ks)) @
               kvs)]
        else []) \<and>
     log_calls (snd (Logger_Error env q msg err kvs w')) =
       log_calls w @
       (if sint Error \<le> sint (cells w a)
        then [(logger (objs w l),
               [VString ''msg'', VString msg,
                VString ''level'', VString (the (levelToString Error)),
                VString ''error'', iface_of_error err] @
               KeyValuesFromContext env (ctx (objs w l)) @
               (elems w (args (objs w l)) @
                concat (map (\<lambda>k. spec_surviving_pairs (spec_normalize k)) ks)) @
               kvs)]
        else [])"
proof -
  from With_chain_post [OF assms(1), of env ks]
  obtain q w' where q: "With_chain env l ks w = (Return q, w')"
    and f: "ctx (objs w' q) = ctx (objs w l)" "lvl (objs w' q) = lvl (objs w l)"
      "logger (objs w' q) = logger (objs w l)"
    and el: "elems w' (args (objs w' q)) =
             elems w (args (objs w l)) @
             concat (map (\<lambda>k. spec_surviving_pairs (spec_normalize k)) ks)"
    and r: "cells w' = cells w" "log_calls w' = log_calls w"
    by blast
  have la: "lvl (objs w' q) = Some a" using f assms(2) by simp
  show ?thesis
    by (simp add: q Logger_Debug_Some [OF la] Logger_Info_Some [OF la]
        Logger_Error_Some [OF la] f el r levelToString_simps)
qed

theorem payload_order_witness:
  "live root_store 0 \<and> lvl (objs root_store 0) = Some 0 \<and>
   (\<exists>q w'. With_chain example_env 0 [] root_store = (Return q, w') \<and>
      log_calls (snd (Logger_Error example_env q ''disk full''
                        (Some (ErrorString ''errX'')) [VString ''path'', VString ''/tmp''] w')) =
        [(''stdout'',
          [VString ''msg'', VString ''disk full'', VString ''level'', VString ''error'',
           VString ''error'', VError (ErrorString ''errX''),
           VString ''path'', VString ''/tmp''])]) \<and>
   (\<exists>q w'. With_chain example_env 0
              [[VString ''a'', VInt 1, VString ''b'', VInt 2]] root_store = (Return q, w') \<and>
      log_calls (snd (Logger_Debug example_env q ''hello'' [VString ''c'', VInt 3] w')) = [] \<and>
      log_calls (snd (Logger_Info example_env q ''hello'' [VString ''c'', VInt 3] w')) =
        [(''stdout'',
          [VString ''msg'', VString ''hello'', VString ''level'', VString ''info'',
           VString ''a'', VInt 1, VString ''b'', VInt 2, VString ''c'', VInt 3])] \<and>
      log_calls (snd (Logger_Error example_env q ''hello'' None [VString ''c'', VInt 3] w')) =
        [(''stdout'',
          [VString ''msg'', VString ''hello'', VString ''level'', VString ''error'',
           VString ''error'', VNil,
           VString ''a'', VInt 1, VString ''b'', VInt 2, VString ''c'', VInt 3])])"
proof -
  have a: "\<exists>q w'. With_chain example_env 0 [] root_store = (Return q, w') \<and>
      log_calls (snd (Logger_Error example_env q ''disk full''
                        (Some (ErrorString ''errX'')) [VString ''path'', VString ''/tmp''] w')) =
        [(''stdout'',
          [VString ''msg'', VString ''disk full'', VString ''level'', VString ''error'',
           VString ''error'', VError (ErrorString ''errX''),
           VString ''path'', VString ''/tmp''])]"
    using payload_order [OF root_store_facts(2) root_store_facts(1), of example_env
        "[]" "''disk full''" "[VString ''path'', VString ''/tmp'']"
        "Some (ErrorString ''errX'')"]
    by (simp add: root_store_facts levelToString_numerals
        Debug_def Info_def Error_def example_env_simps)
  have b: "\<exists>q w'. With_chain example_env 0
              [[VString ''a'', VInt 1, VString ''b'', VInt 2]] root_store = (Return q, w') \<and>
      log_calls (snd (Logger_Debug example_env q ''hello'' [VString ''c'', VInt 3] w')) = [] \<and>
      log_calls (snd (Logger_Info example_env q ''hello'' [VString ''c'', VInt 3] w')) =
        [(''stdout'',
          [VString ''msg'', VString ''hello'', VString ''level'', VString ''info'',
           VString ''a'', VInt 1, VString ''b'', VInt 2, VString ''c'', VInt 3])] \<and>
      log_calls (snd (Logger_Error example_env q ''hello'' None [VString ''c'', VInt 3] w')) =
        [(''stdout'',
          [VString ''msg'', VString ''hello'', VString ''level'', VString ''error'',
           VString ''error'', VNil,
           VString ''a'', VInt 1, VString ''b'', VInt 2, VString ''c'', VInt 3])]"
    using payload_order [OF root_store_facts(2) root_store_facts(1), of example_env
        "[[VString ''a'', VInt 1, VString ''b'', VInt 2]]" "''hello''"
        "[VString ''c'', VInt 3]" None]
    by (simp add: root_store_facts levelToString_numerals spec_normalize_def
        Debug_def Info_def Error_def example_env_simps)
  from a b show ?thesis by (simp only: root_store_facts simp_thms)
qed

section \<open>Derivations\<close>

lemma With_loop_returns:
  fixes w :: "('c, 'm, 's) world"
  assumes "even (length kvs)" and "even i"
  shows "fst (With_loop env kvs i q w) = Return ()"
  using assms
proof (induction "length kvs - i" arbitrary: i w rule: less_induct)
  case less
  show ?case
  proof (cases "i < length kvs")
    case False
    then show ?thesis by (subst With_loop.simps) simp
  next
    case True
    with less.prems have i1: "i + 1 < length kvs"
      by (metis Suc_eq_plus1 Suc_lessI even_Suc)
    have m: "length kvs - (i + 2) < length kvs - i" using True by simp
    have ev: "even (i + 2)" using less.prems by simp
    have ih: "fst (With_loop env kvs (i + 2) q w') = Return ()" for w' :: "('c, 'm, 's) world"
      using less.hyps [OF m less.prems(1) ev] by simp
    show ?thesis
      using True i1 ih
      by (subst With_loop.simps)
        (simp add: index_def Let_def split: iface.splits prod.splits)
  qed
qed

lemma Logger_With_returns:
  fixes w :: "('c, 'm, 's) world"
  shows "\<exists>q. fst (Logger_With env l kvs w) = Return q"
proof (cases "kvs = []")
  case True
  then show ?thesis by (simp add: Logger_With_def)
next
  case False
  let ?kv = "if length kvs mod 2 \<noteq> 0 then kvs @ [VString ''(MISSING)''] else kvs"
  have "?kv = spec_normalize kvs"
    by (simp add: spec_normalize_def odd_iff_mod_2_eq_one)
  then have ev: "even (length ?kv)" by (simp only: even_spec_normalize)
  have r: "\<exists>w''. With_loop env ?kv 0 q w' = (Return (), w'')"
    for q and w' :: "('c, 'm, 's) world"
  proof -
    have "fst (With_loop env ?kv 0 q w') = Return ()"
      by (rule With_loop_returns [OF ev]) simp
    then show ?thesis by (cases "With_loop env ?kv 0 q w'") simp
  qed
  obtain a w1 where a: "make_slice (slice_len (args (objs w l)))
      (slice_len (args (objs w l)) + length ?kv) w = (a, w1)"
    by (cases "make_slice (slice_len (args (objs w l)))
      (slice_len (args (objs w l)) + length ?kv) w")
  obtain n w2 where n: "new_Logger \<lparr>ctx = ctx (objs w1 l), args = a, metric = metric (objs w1 l),
                  lvl = lvl (objs w1 l), logger = logger (objs w1 l)\<rparr> w1 = (n, w2)"
    by (cases "new_Logger \<lparr>ctx = ctx (objs w1 l), args = a, metric = metric (objs w1 l),
                  lvl = lvl (objs w1 l), logger = logger (objs w1 l)\<rparr> w1")
  from r [of n "copy_slice (args (objs w2 n)) (args (objs w2 l)) w2"]
  obtain w4 where "With_loop env ?kv 0 n (copy_slice (args (objs w2 n)) (args (objs w2 l)) w2)
      = (Return (), w4)" by blast
  then have "Logger_With env l kvs w = (Return n, w4)"
    using False a n unfolding Logger_With_def Let_def by simp
  then show ?thesis by simp
qed

text \<open>
  C6: \<^verbatim>\<open>With\<close> with no input returns the same Logger and leaves the store as it is
  (nothing is allocated). With a non-empty input it returns a fresh Logger whose fields
  are the ancestor's fields followed by the surviving pairs of the input, in input order,
  where an input of odd count is first padded with the sentinel \<open>(MISSING)\<close> and a
  pair survives when its key is a string.
\<close>

theorem With_fields:
  assumes "live w l"
  shows "Logger_With env l [] w = (Return l, w) \<and>
    (kvs \<noteq> [] \<longrightarrow>
      (\<exists>w'. Logger_With env l kvs w = (Return (next_obj w), w') \<and>
         elems w' (args (objs w' (next_obj w))) =
           elems w (args (objs w l)) @
           spec_surviving_pairs
             (if odd (length kvs) then kvs @ [VString ''(MISSING)''] else kvs)))"
proof -
  have "Logger_With env l [] w = (Return l, w)"
    by (simp add: Logger_With_def)
  moreover have "\<exists>w'. Logger_With env l kvs w = (Return (next_obj w), w') \<and>
         elems w' (args (objs w' (next_obj w))) =
           elems w (args (objs w l)) @
           spec_surviving_pairs
             (if odd (length kvs) then kvs @ [VString ''(MISSING)''] else kvs)"
    if "kvs \<noteq> []"
    using Logger_With_post [OF assms that, of env]
    unfolding spec_normalize_def by blast
  ultimately show ?thesis by blast
qed

lemma root_store_next: "next_obj root_store = Suc 0" "next_array root_store = 0"
  by (simp_all add: root_store_eq)

theorem With_fields_witness:
  "live root_store 0 \<and>
   Logger_With example_env 0 [] root_store = (Return 0, root_store) \<and>
   [VString ''k''] \<noteq> [] \<and>
   (\<exists>w'. Logger_With example_env 0 [VString ''k''] root_store = (Return 1, w') \<and>
      elems w' (args (objs w' 1)) = [VString ''k'', VString ''(MISSING)'']) \<and>
   (\<exists>w'. Logger_With example_env 0
             [VString ''a'', VInt 1, VInt 42, VString ''v'', VString ''b''] root_store
           = (Return 1, w') \<and>
      elems w' (args (objs w' 1)) =
        [VString ''a'', VInt 1, VString ''b'', VString ''(MISSING)''])"
  using With_fields [OF root_store_facts(2), of example_env "[VString ''k'']"]
    With_fields [OF root_store_facts(2), of example_env
      "[VString ''a'', VInt 1, VInt 42, VString ''v'', VString ''b'']"]
  by (simp add: root_store_facts root_store_next)


lemma no_string_key_no_pair:
  "\<forall>k\<in>set (spec_keys xs). \<not> is_string k \<Longrightarrow> spec_surviving_pairs xs = []"
  by (induction xs rule: spec_surviving_pairs.induct) auto

lemma spec_keys_padded: "odd (length xs) \<Longrightarrow> spec_keys (xs @ [s]) = spec_keys xs"
  by (induction xs rule: spec_keys.induct) auto

lemma no_string_key_normalize:
  assumes "\<forall>k\<in>set (spec_keys kvs). \<not> is_string k"
  shows "spec_surviving_pairs (spec_normalize kvs) = []"
proof (cases "odd (length kvs)")
  case True
  then have "spec_keys (spec_normalize kvs) = spec_keys kvs"
    by (simp add: spec_normalize_def spec_keys_padded)
  with assms show ?thesis by (simp add: no_string_key_no_pair)
next
  case False
  with assms show ?thesis by (simp add: spec_normalize_def no_string_key_no_pair)
qed

text \<open>
  C10: \<^verbatim>\<open>With\<close> returns the Logger it was called on only when the input has length
  zero. A non-empty input whose keys are all non-strings (as in \<^verbatim>\<open>With(42, "v")\<close>)
  gives a new Logger, not allocated before the call, whose fields equal the ancestor's.
\<close>

theorem With_same_instance_only_for_empty_input:
  assumes "live w l"
  shows "(fst (Logger_With env l kvs w) = Return l) = (length kvs = 0) \<and>
    (kvs \<noteq> [] \<and> (\<forall>k\<in>set (spec_keys kvs). \<not> is_string k) \<longrightarrow>
      (\<exists>q w'. Logger_With env l kvs w = (Return q, w') \<and> q \<noteq> l \<and>
         \<not> live w q \<and> live w' q \<and>
         elems w' (args (objs w' q)) = elems w (args (objs w l))))"
proof -
  from assms have lt: "l < next_obj w" by (simp add: live_def)
  have a: "(fst (Logger_With env l kvs w) = Return l) = (length kvs = 0)"
  proof (cases "kvs = []")
    case True
    then show ?thesis by (simp add: Logger_With_def)
  next
    case False
    from Logger_With_post [OF assms False, of env] lt False
    show ?thesis by auto
  qed
  have b: "\<exists>q w'. Logger_With env l kvs w = (Return q, w') \<and> q \<noteq> l \<and>
         \<not> live w q \<and> live w' q \<and>
         elems w' (args (objs w' q)) = elems w (args (objs w l))"
    if ne: "kvs \<noteq> []" and ks: "\<forall>k\<in>set (spec_keys kvs). \<not> is_string k"
  proof -
    from Logger_With_post [OF assms ne, of env]
    obtain w' where "Logger_With env l kvs w = (Return (next_obj w), w')"
      "live w' (next_obj w)"
      "elems w' (args (objs w' (next_obj w))) =
         elems w (args (objs w l)) @ spec_surviving_pairs (spec_normalize kvs)"
      by blast
    moreover have "next_obj w \<noteq> l" "\<not> live w (next_obj w)"
      using lt by (simp_all add: live_def)
    ultimately show ?thesis
      using no_string_key_normalize [OF ks] by auto
  qed
  from a b show ?thesis by blast
qed

theorem With_same_instance_only_for_empty_input_witness:
  "live root_store 0 \<and> [VInt 42, VString ''v''] \<noteq> [] \<and>
   spec_keys [VInt 42, VString ''v''] = [VInt 42] \<and> \<not> is_string (VInt 42) \<and>
   fst (Logger_With example_env 0 [VInt 42, VString ''v''] root_store) \<noteq> Return 0 \<and>
   (\<exists>q w'. Logger_With example_env 0 [VInt 42, VString ''v''] root_store = (Return q, w') \<and>
      q \<noteq> 0 \<and> elems w' (args (objs w' q)) = [])"
  using With_same_instance_only_for_empty_input [OF root_store_facts(2), of example_env
      "[VInt 42, VString ''v'']"]
  by (auto simp: root_store_facts)


lemma log_calls_Debug_cong:
  assumes "objs w' l = objs w l" and "elems w' (args (objs w l)) = elems w (args (objs w l))"
    and "cells w' = cells w" and "log_calls w' = log_calls w"
  shows "log_calls (snd (Logger_Debug env l msg kvs w')) =
         log_calls (snd (Logger_Debug env l msg kvs w))"
  using assms
  by (simp add: Logger_Debug_def LoadInt32_def call_Log_def split: option.splits)

lemma log_calls_Info_cong:
  assumes "objs w' l = objs w l" and "elems w' (args (objs w l)) = elems w (args (objs w l))"
    and "cells w' = cells w" and "log_calls w' = log_calls w"
  shows "log_calls (snd (Logger_Info env l msg kvs w')) =
         log_calls (snd (Logger_Info env l msg kvs w))"
  using assms
  by (simp add: Logger_Info_def LoadInt32_def call_Log_def RecordContext_def elems_def
      split: option.splits)

lemma log_calls_Error_cong:
  assumes "objs w' l = objs w l" and "elems w' (args (objs w l)) = elems w (args (objs w l))"
    and "cells w' = cells w" and "log_calls w' = log_calls w"
  shows "log_calls (snd (Logger_Error env l msg err kvs w')) =
         log_calls (snd (Logger_Error env l msg err kvs w))"
  using assms
  by (simp add: Logger_Error_def LoadInt32_def call_Log_def RecordContext_def elems_def
      split: option.splits)

lemma ancestor_unchangedI:
  assumes "live w l" and "extends w w'" and "cells w' = cells w"
    and "log_calls w' = log_calls w"
  shows "ancestor_unchanged env l w w'"
proof -
  from assms(1) have lt: "l < next_obj w" and wf: "wf_slice w (args (objs w l))"
    by (simp_all add: live_def)
  have o: "objs w' l = objs w l" by (rule extends_objs [OF assms(2) lt])
  have e: "elems w' (args (objs w l)) = elems w (args (objs w l))"
    by (rule extends_elems [OF assms(2) wf])
  show ?thesis
    unfolding ancestor_unchanged_def
    using o e log_calls_Debug_cong [OF o e assms(3,4)] log_calls_Info_cong [OF o e assms(3,4)]
      log_calls_Error_cong [OF o e assms(3,4)]
    by simp
qed

lemma live_arr_allocated:
  "live w l \<Longrightarrow> slice_arr (args (objs w l)) \<noteq> Some (next_array w)"
  by (auto simp: live_def wf_slice_def split: option.splits)

text \<open>
  C7: \<^verbatim>\<open>With\<close>, \<^verbatim>\<open>Context\<close> and \<^verbatim>\<open>Metric\<close> never change the ancestor: its struct
  (fields slice, context, metric, threshold pointer, sink) and the elements of its fields
  are the same after the call, and every later \<^verbatim>\<open>Debug\<close>, \<^verbatim>\<open>Info\<close> or \<^verbatim>\<open>Error\<close> on it
  hands the sink what it would have handed it before. A new Logger's fields live in a
  backing array allocated by the call, never in the ancestor's.
\<close>

theorem derivations_leave_ancestor_unchanged:
  assumes "live w l"
  shows "(\<exists>q w'. Logger_With env l kvs w = (Return q, w') \<and>
            ancestor_unchanged env l w w' \<and>
            (q \<noteq> l \<longrightarrow> slice_arr (args (objs w' q)) = Some (next_array w) \<and>
                        slice_arr (args (objs w' q)) \<noteq> slice_arr (args (objs w' l)))) \<and>
         (\<exists>q w'. Logger_Context l c w = (q, w') \<and> q \<noteq> l \<and>
            ancestor_unchanged env l w w' \<and>
            slice_arr (args (objs w' q)) = Some (next_array w) \<and>
            slice_arr (args (objs w' q)) \<noteq> slice_arr (args (objs w' l))) \<and>
         (\<exists>q w'. Logger_Metric l m w = (q, w') \<and> q \<noteq> l \<and>
            ancestor_unchanged env l w w' \<and>
            slice_arr (args (objs w' q)) = Some (next_array w) \<and>
            slice_arr (args (objs w' q)) \<noteq> slice_arr (args (objs w' l)))"
proof -
  from assms have lt: "l < next_obj w" by (simp add: live_def)
  note fresh = live_arr_allocated [OF assms]
  have a: "\<exists>q w'. Logger_With env l kvs w = (Return q, w') \<and>
            ancestor_unchanged env l w w' \<and>
            (q \<noteq> l \<longrightarrow> slice_arr (args (objs w' q)) = Some (next_array w) \<and>
                        slice_arr (args (objs w' q)) \<noteq> slice_arr (args (objs w' l)))"
  proof (cases "kvs = []")
    case True
    have "ancestor_unchanged env l w w"
      by (rule ancestor_unchangedI [OF assms extends_refl]) simp_all
    then show ?thesis using True by (simp add: Logger_With_def)
  next
    case False
    from Logger_With_post [OF assms False, of env]
    obtain w' where r: "Logger_With env l kvs w = (Return (next_obj w), w')"
      and e: "extends w w'" and c: "cells w' = cells w" "log_calls w' = log_calls w"
      and s: "slice_arr (args (objs w' (next_obj w))) = Some (next_array w)"
      by blast
    have "objs w' l = objs w l" by (rule extends_objs [OF e lt])
    with fresh s r ancestor_unchangedI [OF assms e c, of env]
    show ?thesis by simp
  qed
  have b: "\<exists>q w'. Logger_Context l c w = (q, w') \<and> q \<noteq> l \<and>
            ancestor_unchanged env l w w' \<and>
            slice_arr (args (objs w' q)) = Some (next_array w) \<and>
            slice_arr (args (objs w' q)) \<noteq> slice_arr (args (objs w' l))"
  proof -
    from Logger_Context_post [OF assms, of c]
    obtain w' where r: "Logger_Context l c w = (next_obj w, w')"
      and e: "extends w w'" and c: "cells w' = cells w" "log_calls w' = log_calls w"
      and s: "slice_arr (args (objs w' (next_obj w))) = Some (next_array w)"
      by blast
    have "objs w' l = objs w l" by (rule extends_objs [OF e lt])
    with fresh s r lt ancestor_unchangedI [OF assms e c, of env]
    show ?thesis by simp
  qed
  have c: "\<exists>q w'. Logger_Metric l m w = (q, w') \<and> q \<noteq> l \<and>
            ancestor_unchanged env l w w' \<and>
            slice_arr (args (objs w' q)) = Some (next_array w) \<and>
            slice_arr (args (objs w' q)) \<noteq> slice_arr (args (objs w' l))"
  proof -
    from Logger_Metric_post [OF assms, of m]
    obtain w' where r: "Logger_Metric l m w = (next_obj w, w')"
      and e: "extends w w'" and c: "cells w' = cells w" "log_calls w' = log_calls w"
      and s: "slice_arr (args (objs w' (next_obj w))) = Some (next_array w)"
      by blast
    have "objs w' l = objs w l" by (rule extends_objs [OF e lt])
    with fresh s r lt ancestor_unchangedI [OF assms e c, of env]
    show ?thesis by simp
  qed
  from a b c show ?thesis by blast
qed


lemma root_Info_hello:
  "log_calls (snd (Logger_Info example_env 0 ''hello'' [] root_store)) =
     [(''stdout'', [VString ''msg'', VString ''hello'', VString ''level'', VString ''info''])]"
  by (simp add: Logger_Info_Some [OF root_store_facts(1)] root_store_facts Info_def
      example_env_simps)

theorem derivations_leave_ancestor_unchanged_witness:
  "live root_store 0 \<and>
   (\<exists>q w'. Logger_With example_env 0 [VString ''k'', VInt 1] root_store = (Return q, w') \<and>
      q \<noteq> 0 \<and> objs w' 0 = objs root_store 0 \<and> elems w' (args (objs w' 0)) = [] \<and>
      log_calls (snd (Logger_Info example_env 0 ''hello'' [] w')) =
        [(''stdout'',
          [VString ''msg'', VString ''hello'', VString ''level'', VString ''info''])]) \<and>
   (\<exists>q w'. Logger_Context 0 [VString ''request'', VInt 7] root_store = (q, w') \<and>
      q \<noteq> 0 \<and> objs w' 0 = objs root_store 0 \<and>
      log_calls (snd (Logger_Info example_env 0 ''hello'' [] w')) =
        [(''stdout'',
          [VString ''msg'', VString ''hello'', VString ''level'', VString ''info''])]) \<and>
   (\<exists>q w'. Logger_Metric 0 (Some ''requests'') root_store = (q, w') \<and>
      q \<noteq> 0 \<and> objs w' 0 = objs root_store 0 \<and>
      log_calls (snd (Logger_Info example_env 0 ''hello'' [] w')) =
        [(''stdout'',
          [VString ''msg'', VString ''hello'', VString ''level'', VString ''info''])])"
proof -
  have ne: "fst (Logger_With example_env 0 [VString ''k'', VInt 1] root_store) \<noteq> Return 0"
    using Logger_With_post [OF root_store_facts(2), of "[VString ''k'', VInt 1]" example_env]
    by (auto simp: root_store_next)
  show ?thesis
    using derivations_leave_ancestor_unchanged [OF root_store_facts(2), of example_env
        "[VString ''k'', VInt 1]" "[VString ''request'', VInt 7]" "Some ''requests''"]
      root_Info_hello ne
    by (auto simp: ancestor_unchanged_def root_store_facts)
qed


text \<open>
  C8: on a Logger with a threshold cell, \<^verbatim>\<open>SetLevel\<close>, \<^verbatim>\<open>Debug\<close>, \<^verbatim>\<open>Info\<close>,
  \<^verbatim>\<open>Error\<close> and \<^verbatim>\<open>With\<close> return normally (\<^verbatim>\<open>Context\<close> and \<^verbatim>\<open>Metric\<close> have no
  failing result at all), and what the sink's \<^verbatim>\<open>Log\<close> returns changes neither the
  result nor the store: the same call with any other sink behaviour \<open>f\<close> gives the
  same outcome.
\<close>

theorem no_operation_returns_an_error:
  assumes "lvl (objs w l) = Some a"
  shows "fst (Logger_SetLevel l v w) = Return () \<and>
         fst (Logger_Debug env l msg kvs w) = Return () \<and>
         fst (Logger_Info env l msg kvs w) = Return () \<and>
         fst (Logger_Error env l msg err kvs w) = Return () \<and>
         (\<exists>q. fst (Logger_With env l kvs w) = Return q) \<and>
         Logger_Debug (env\<lparr>Log := f\<rparr>) l msg kvs w = Logger_Debug env l msg kvs w \<and>
         Logger_Info (env\<lparr>Log := f\<rparr>) l msg kvs w = Logger_Info env l msg kvs w \<and>
         Logger_Error (env\<lparr>Log := f\<rparr>) l msg err kvs w = Logger_Error env l msg err kvs w"
  using Logger_With_returns [of env l kvs w]
  by (simp add: SetLevel_Some [OF assms] Logger_Debug_Some [OF assms]
      Logger_Info_Some [OF assms] Logger_Error_Some [OF assms])

lemma failing_env_eq:
  "failing_env = example_env\<lparr>Log := \<lambda>s xs. Some (ErrorString ''write failed'')\<rparr>"
  by (simp add: failing_env_def)

theorem no_operation_returns_an_error_witness:
  "lvl (objs root_store 0) = Some 0 \<and>
   Log failing_env ''stdout''
     [VString ''msg'', VString ''hello'', VString ''level'', VString ''info'']
     = Some (ErrorString ''write failed'') \<and>
   fst (Logger_Info failing_env 0 ''hello'' [] root_store) = Return () \<and>
   log_calls (snd (Logger_Info failing_env 0 ''hello'' [] root_store)) =
     [(''stdout'', [VString ''msg'', VString ''hello'', VString ''level'', VString ''info''])] \<and>
   fst (Logger_Error failing_env 0 ''hello'' None [] root_store) = Return () \<and>
   fst (Logger_Debug failing_env 0 ''hello'' [] root_store) = Return () \<and>
   fst (Logger_SetLevel 0 Debug root_store) = Return ()"
  using no_operation_returns_an_error [OF root_store_facts(1), of Debug example_env
      "''hello''" "[]" None "\<lambda>s xs. Some (ErrorString ''write failed'')"]
    root_Info_hello
  by (simp add: failing_env_eq root_store_facts)

section \<open>The shared threshold\<close>

lemma cells_step_refl: "cells_step w w a"
  by (simp add: cells_step_def)

lemma cells_step_trans: "cells_step w w1 a \<Longrightarrow> cells_step w1 w2 a \<Longrightarrow> cells_step w w2 a"
  unfolding cells_step_def by metis

lemma cells_step_eq: "cells w' = cells w \<Longrightarrow> cells_step w w' a"
  by (simp add: cells_step_def)

lemma normalized_legal: "spec_normalized_level v \<in> legal"
  by (simp add: spec_normalized_level_def legal_def Error_def Info_def Debug_def)

lemma do_call_post:
  assumes "live w l" and "lvl (objs w l) = Some a"
  shows "\<exists>r w'. do_call env c l w = (Return r, w') \<and> extends w w' \<and> cells_step w w' a \<and>
           (case r of None \<Rightarrow> True | Some q \<Rightarrow> live w' q \<and> lvl (objs w' q) = Some a)"
proof (cases c)
  case (CallSetLevel v)
  then show ?thesis
    by (simp add: SetLevel_Some [OF assms(2)] extends_def cells_step_def normalized_legal)
next
  case (CallDebug msg kvs)
  then show ?thesis
    by (simp add: Logger_Debug_Some [OF assms(2)] extends_def cells_step_def)
next
  case (CallInfo msg kvs)
  then show ?thesis
    by (simp add: Logger_Info_Some [OF assms(2)] extends_def cells_step_def)
next
  case (CallError msg err kvs)
  then show ?thesis
    by (simp add: Logger_Error_Some [OF assms(2)] extends_def cells_step_def)
next
  case (CallWith kvs)
  show ?thesis
  proof (cases "kvs = []")
    case True
    then show ?thesis
      using CallWith assms by (simp add: Logger_With_def extends_refl cells_step_refl)
  next
    case False
    from Logger_With_post [OF assms(1) False, of env]
    show ?thesis using CallWith assms(2) by (auto simp: cells_step_eq)
  qed
next
  case (CallContext x)
  from Logger_Context_post [OF assms(1), of x]
  show ?thesis using CallContext assms(2) by (auto simp: cells_step_eq)
next
  case (CallMetric m)
  from Logger_Metric_post [OF assms(1), of m]
  show ?thesis using CallMetric assms(2) by (auto simp: cells_step_eq)
qed

lemma family_extends:
  assumes "family w a ls" and "extends w w'"
  shows "family w' a ls"
  unfolding family_def
proof
  fix q assume "q \<in> set ls"
  with assms(1) have l: "live w q" and v: "lvl (objs w q) = Some a"
    by (simp_all add: family_def)
  from l have "q < next_obj w" by (simp add: live_def)
  then have "objs w' q = objs w q" by (rule extends_objs [OF assms(2)])
  with v extends_live [OF assms(2) l]
  show "live w' q \<and> lvl (objs w' q) = Some a" by simp
qed

lemma run_post:
  assumes "family w a ls"
  shows "\<exists>ls' w'. run env steps ls w = (Return (ls @ ls'), w') \<and> extends w w' \<and>
           cells_step w w' a \<and> family w' a (ls @ ls')"
  using assms
proof (induction steps arbitrary: ls w)
  case Nil
  then show ?case by (simp add: extends_refl cells_step_refl)
next
  case (Cons step steps)
  obtain j c where step: "step = (j, c)" by (cases step)
  show ?case
  proof (cases "j < length ls")
    case False
    with Cons.IH [OF Cons.prems] step show ?thesis by simp
  next
    case True
    then have mem: "ls ! j \<in> set ls" by simp
    with Cons.prems have l: "live w (ls ! j)" and v: "lvl (objs w (ls ! j)) = Some a"
      by (simp_all add: family_def)
    from do_call_post [OF l v, of env c]
    obtain r w1 where r: "do_call env c (ls ! j) w = (Return r, w1)"
      and e1: "extends w w1" and c1: "cells_step w w1 a"
      and n: "case r of None \<Rightarrow> True | Some q \<Rightarrow> live w1 q \<and> lvl (objs w1 q) = Some a"
      by blast
    have f1: "family w1 a ls" by (rule family_extends [OF Cons.prems e1])
    show ?thesis
    proof (cases r)
      case None
      from Cons.IH [OF f1]
      obtain ls' w' where "run env steps ls w1 = (Return (ls @ ls'), w')"
        "extends w1 w'" "cells_step w1 w' a" "family w' a (ls @ ls')"
        by blast
      then show ?thesis
        using step True r None extends_trans [OF e1] cells_step_trans [OF c1]
        by auto
    next
      case (Some q)
      with n f1 have "family w1 a (ls @ [q])" by (simp add: family_def)
      from Cons.IH [OF this]
      obtain ls' w' where "run env steps (ls @ [q]) w1 = (Return ((ls @ [q]) @ ls'), w')"
        "extends w1 w'" "cells_step w1 w' a" "family w' a ((ls @ [q]) @ ls')"
        by blast
      then show ?thesis
        using step True r Some extends_trans [OF e1] cells_step_trans [OF c1]
        by auto
    qed
  qed
qed





lemma example_family: "fst (run example_env example_steps [0] root_store) = Return [0, 1, 2, 3]"
  by (simp add: example_steps_def root_store_eq Logger_With_def Logger_Context_def
      Logger_Metric_def Logger_SetLevel_def StoreInt32_def make_slice_def new_Logger_def
      copy_slice_def append_slice_def elems_def nil_slice_def index_def With_loop.simps
      Let_def example_env_def)



text \<open>
  C1: all Loggers that a program of calls derives from one Logger hold the threshold
  pointer of that Logger, and after \<^verbatim>\<open>SetLevel(v)\<close> through any one of them
  every one of them reads the normalised \<open>v\<close> and gates its next \<^verbatim>\<open>Debug\<close>,
  \<^verbatim>\<open>Info\<close> and \<^verbatim>\<open>Error\<close> by it.
\<close>

theorem shared_threshold:
  assumes "live w l" and "lvl (objs w l) = Some a"
  shows "\<exists>ls w1. run env steps [l] w = (Return ls, w1) \<and> l \<in> set ls \<and>
     (\<forall>q\<in>set ls. lvl (objs w1 q) = lvl (objs w l)) \<and>
     (\<forall>p\<in>set ls. \<forall>q\<in>set ls.
        \<exists>w2. Logger_SetLevel p v w1 = (Return (), w2) \<and>
          LoadInt32 (lvl (objs w2 q)) w2 = Return (spec_normalized_level v) \<and>
          (log_calls (snd (Logger_Debug env q msg kvs w2)) = log_calls w2)
            = (sint (spec_normalized_level v) < sint Debug) \<and>
          (log_calls (snd (Logger_Info env q msg kvs w2)) = log_calls w2)
            = (sint (spec_normalized_level v) < sint Info) \<and>
          (log_calls (snd (Logger_Error env q msg err kvs w2)) = log_calls w2)
            = (sint (spec_normalized_level v) < sint Error))"
proof -
  have f: "family w a [l]" using assms by (simp add: family_def)
  from run_post [OF f, of env steps]
  obtain ls' w1 where r: "run env steps [l] w = (Return ([l] @ ls'), w1)"
    and f': "family w1 a ([l] @ ls')"
    by blast
  have same: "lvl (objs w1 q) = Some a" if "q \<in> set ([l] @ ls')" for q
    using f' that by (auto simp: family_def)
  have set: "\<exists>w2. Logger_SetLevel p v w1 = (Return (), w2) \<and>
          LoadInt32 (lvl (objs w2 q)) w2 = Return (spec_normalized_level v) \<and>
          (log_calls (snd (Logger_Debug env q msg kvs w2)) = log_calls w2)
            = (sint (spec_normalized_level v) < sint Debug) \<and>
          (log_calls (snd (Logger_Info env q msg kvs w2)) = log_calls w2)
            = (sint (spec_normalized_level v) < sint Info) \<and>
          (log_calls (snd (Logger_Error env q msg err kvs w2)) = log_calls w2)
            = (sint (spec_normalized_level v) < sint Error)"
    if p: "p \<in> set ([l] @ ls')" and q: "q \<in> set ([l] @ ls')" for p q
  proof -
    let ?w2 = "w1\<lparr>cells := (cells w1)(a := spec_normalized_level v)\<rparr>"
    have s: "Logger_SetLevel p v w1 = (Return (), ?w2)"
      by (rule SetLevel_Some [OF same [OF p]])
    have lq: "lvl (objs ?w2 q) = Some a" using same [OF q] by simp
    show ?thesis
      unfolding s
      by (simp add: Logger_Debug_Some [OF lq] Logger_Info_Some [OF lq]
          Logger_Error_Some [OF lq] LoadInt32_def same [OF q] not_le)
  qed
  show ?thesis
    using r same set assms(2) by (intro exI [of _ "[l] @ ls'"] exI [of _ w1]) simp
qed

theorem shared_threshold_witness:
  "live root_store 0 \<and> lvl (objs root_store 0) = Some 0 \<and>
   (\<exists>w1 w2. run example_env example_steps [0] root_store = (Return [0, 1, 2, 3], w1) \<and>
      lvl (objs w1 3) = Some 0 \<and>
      Logger_SetLevel 1 7 w1 = (Return (), w2) \<and>
      LoadInt32 (lvl (objs w2 0)) w2 = Return Info \<and>
      LoadInt32 (lvl (objs w2 2)) w2 = Return Info \<and>
      LoadInt32 (lvl (objs w2 3)) w2 = Return Info \<and>
      log_calls (snd (Logger_Debug example_env 3 ''tick'' [] w2)) = log_calls w2 \<and>
      log_calls (snd (Logger_Info example_env 3 ''tick'' [] w2)) \<noteq> log_calls w2)"
proof -
  from shared_threshold [OF root_store_facts(2) root_store_facts(1), of example_env
      example_steps 7 "''tick''" "[]" None]
  obtain ls w1 where r: "run example_env example_steps [0] root_store = (Return ls, w1)"
    and same: "\<forall>q\<in>set ls. lvl (objs w1 q) = lvl (objs root_store 0)"
    and set: "\<forall>p\<in>set ls. \<forall>q\<in>set ls.
        \<exists>w2. Logger_SetLevel p 7 w1 = (Return (), w2) \<and>
          LoadInt32 (lvl (objs w2 q)) w2 = Return (spec_normalized_level 7) \<and>
          (log_calls (snd (Logger_Debug example_env q ''tick'' [] w2)) = log_calls w2)
            = (sint (spec_normalized_level 7) < sint Debug) \<and>
          (log_calls (snd (Logger_Info example_env q ''tick'' [] w2)) = log_calls w2)
            = (sint (spec_normalized_level 7) < sint Info) \<and>
          (log_calls (snd (Logger_Error example_env q ''tick'' None [] w2)) = log_calls w2)
            = (sint (spec_normalized_level 7) < sint Error)"
    by blast
  from r example_family have ls: "ls = [0, 1, 2, 3]" by simp
  have n: "spec_normalized_level 7 = Info"
    by (simp add: spec_normalized_level_def Info_def)
  have m1: "1 \<in> set ls" using ls by simp
  from set m1 obtain w2 where s: "Logger_SetLevel 1 7 w1 = (Return (), w2)"
    by blast
  have "LoadInt32 (lvl (objs w2 q)) w2 = Return Info \<and>
        (log_calls (snd (Logger_Debug example_env q ''tick'' [] w2)) = log_calls w2)
            = (sint Info < sint Debug) \<and>
        (log_calls (snd (Logger_Info example_env q ''tick'' [] w2)) = log_calls w2)
            = (sint Info < sint Info)"
    if "q \<in> set ls" for q
  proof -
    from set m1 that obtain w2' where a: "Logger_SetLevel 1 7 w1 = (Return (), w2')"
      and b: "LoadInt32 (lvl (objs w2' q)) w2' = Return (spec_normalized_level 7)"
        "(log_calls (snd (Logger_Debug example_env q ''tick'' [] w2')) = log_calls w2')
            = (sint (spec_normalized_level 7) < sint Debug)"
        "(log_calls (snd (Logger_Info example_env q ''tick'' [] w2')) = log_calls w2')
            = (sint (spec_normalized_level 7) < sint Info)"
      by blast
    from a s have "w2' = w2" by simp
    with b n show ?thesis by simp
  qed
  from this [of 0] this [of 2] this [of 3] same r s
  show ?thesis
    by (simp add: ls root_store_facts Info_def Debug_def)
qed

end
